theory Spec2Isabelle
  imports Complex_Main
begin

section \<open>Python strings\<close>

text \<open>
  A Python \<open>str\<close> is a sequence of Unicode code points, and the scripts work on Hebrew
  text, so a string is a list of code points (natural numbers), not a list of bytes.
  \<open>len\<close> is \<open>length\<close>, \<open>s[:n]\<close> is \<open>take n s\<close>, \<open>+\<close> is \<open>@\<close>.
  Python's \<open>float\<close> scores are modelled by exact rationals: the model computes the
  arithmetic the source writes, without the rounding of IEEE doubles.
\<close>

type_synonym ustring = "nat list"

datatype py_error = IndexError | TypeError | ZeroDivisionError

definition asc :: "string \<Rightarrow> ustring" where
  \<comment> \<open>an ASCII literal of the source, as code points\<close>
  "asc s = map of_char s"

definition unlines :: "ustring list \<Rightarrow> ustring" where
  \<comment> \<open>the lines of a triple-quoted literal, each ended by a newline\<close>
  "unlines ls = concat (map (\<lambda>l. l @ [10]) ls)"

definition is_space :: "nat \<Rightarrow> bool" where
  \<comment> \<open>the class \<open>\s\<close> of \<open>re\<close> on \<open>str\<close> patterns, which is also what \<open>str.strip()\<close> removes\<close>
  "is_space c \<longleftrightarrow>
     (9 \<le> c \<and> c \<le> 13) \<or> (28 \<le> c \<and> c \<le> 32) \<or> c = 133 \<or> c = 160 \<or> c = 5760 \<or>
     (8192 \<le> c \<and> c \<le> 8202) \<or> c = 8232 \<or> c = 8233 \<or> c = 8239 \<or> c = 8287 \<or> c = 12288"

definition is_hebrew :: "nat \<Rightarrow> bool" where
  \<comment> \<open>the class of the Hebrew letters, U+05D0 (alef) to U+05EA (tav)\<close>
  "is_hebrew c \<longleftrightarrow> 1488 \<le> c \<and> c \<le> 1514"

definition strip :: "ustring \<Rightarrow> ustring" where
  \<comment> \<open>\<open>s.strip()\<close>\<close>
  "strip s = rev (dropWhile is_space (rev (dropWhile is_space s)))"

fun contains :: "ustring \<Rightarrow> ustring \<Rightarrow> bool" where
  \<comment> \<open>\<open>p in s\<close> on strings: \<open>p\<close> occurs in \<open>s\<close> as a contiguous substring\<close>
  "contains p [] = (p = [])"
| "contains p (c # cs) = (take (length p) (c # cs) = p \<or> contains p cs)"

function collapse_ws :: "ustring \<Rightarrow> ustring" where
  \<comment> \<open>\<open>re.sub(r'\s+', ' ', text)\<close>: every maximal run of whitespace becomes one space\<close>
  "collapse_ws [] = []"
| "collapse_ws (c # cs) =
     (if is_space c then 32 # collapse_ws (dropWhile is_space cs) else c # collapse_ws cs)"
  by pat_completeness auto
termination
  by (relation "measure length") (auto simp: le_imp_less_Suc length_dropWhile_le)

function hebrew_runs :: "nat \<Rightarrow> ustring \<Rightarrow> ustring list" where
  \<comment> \<open>\<open>re.findall\<close> of the Hebrew-letter class repeated \<open>{k,}\<close> (\<open>+\<close> is \<open>k = 1\<close>):
      the maximal runs of Hebrew letters of length at least \<open>k\<close>, from left to right\<close>
  "hebrew_runs k [] = []"
| "hebrew_runs k (c # cs) =
     (if is_hebrew c
      then (let run = c # takeWhile is_hebrew cs
            in (if k \<le> length run then [run] else []) @ hebrew_runs k (dropWhile is_hebrew cs))
      else hebrew_runs k cs)"
  by pat_completeness auto
termination
  by (relation "measure (\<lambda>(k, s). length s)") (auto simp: le_imp_less_Suc length_dropWhile_le)

function digits :: "nat \<Rightarrow> ustring" where
  "digits n = (if n < 10 then [48 + n] else digits (n div 10) @ [48 + n mod 10])"
  by pat_completeness auto
termination
  by (relation "measure id") auto

declare digits.simps [simp del]

definition str_int :: "int \<Rightarrow> ustring" where
  \<comment> \<open>\<open>str(i)\<close> of an integer, as an f-string renders it\<close>
  "str_int i = (if i < 0 then 45 # digits (nat (- i)) else digits (nat i))"

definition py_index :: "'a list \<Rightarrow> int \<Rightarrow> py_error + nat" where
  \<comment> \<open>the position that \<open>xs[i]\<close> reads or writes: a negative index counts from the end,
      an index out of range raises\<close>
  "py_index xs i =
     (if 0 \<le> i \<and> i < int (length xs) then Inr (nat i)
      else if - int (length xs) \<le> i \<and> i < 0 then Inr (nat (int (length xs) + i))
      else Inl IndexError)"

section \<open>The candidate scan shared by the matchers\<close>

text \<open>
  Versions 7, 8 and 10 scan the passages with the same loop:
  \<^verbatim>\<open>
  best_match = None; best_score = 0; best_idx = -1
  for idx, ft in enumerate(full_texts):
      if <ft is used>: continue
      score = <score of ft>
      if score > best_score:
          best_score = score; best_match = ft; best_idx = idx
  \<close>
  followed by the test \<open>if best_match and best_score >= threshold\<close>. The pair
  \<open>best_match, best_idx\<close> is \<open>None, -1\<close> or a passage with its index, so the state of the
  loop is an optional (index, passage) pair and the best score.
\<close>

definition scan_step :: "(nat \<Rightarrow> 'p \<Rightarrow> bool) \<Rightarrow> ('p \<Rightarrow> 's::linorder) \<Rightarrow> nat \<Rightarrow> 'p \<Rightarrow>
    (nat \<times> 'p) option \<times> 's \<Rightarrow> (nat \<times> 'p) option \<times> 's" where
  \<comment> \<open>one iteration of the loop body\<close>
  "scan_step skip score idx ft st =
     (if skip idx ft then st
      else if snd st < score ft then (Some (idx, ft), score ft)
      else st)"

fun scan_best :: "(nat \<Rightarrow> 'p \<Rightarrow> bool) \<Rightarrow> ('p \<Rightarrow> 's::linorder) \<Rightarrow> nat \<Rightarrow> 'p list \<Rightarrow>
    (nat \<times> 'p) option \<times> 's \<Rightarrow> (nat \<times> 'p) option \<times> 's" where
  \<comment> \<open>the loop over \<open>enumerate(full_texts)\<close>, from index \<open>idx\<close> on\<close>
  "scan_best skip score idx [] st = st"
| "scan_best skip score idx (ft # rest) st =
     scan_best skip score (Suc idx) rest (scan_step skip score idx ft st)"

definition select_best :: "(nat \<Rightarrow> 'p \<Rightarrow> bool) \<Rightarrow> ('p \<Rightarrow> 's::{linorder,zero}) \<Rightarrow> 's \<Rightarrow> 'p list \<Rightarrow>
    (nat \<times> 'p \<times> 's) option" where
  \<comment> \<open>the loop from \<open>None, 0, -1\<close> and the threshold test: the passage that is matched, with
      its index and score\<close>
  "select_best skip score threshold full_texts =
     (case scan_best skip score 0 full_texts (None, 0) of
        (Some (best_idx, best_match), best_score) \<Rightarrow>
          if threshold \<le> best_score then Some (best_idx, best_match, best_score) else None
      | (None, best_score) \<Rightarrow> None)"

section \<open>The records of the matchers\<close>

text \<open>
  The scripts keep their records in dictionaries. Versions 7, 8 and 10 build the same
  summary dictionary (version 7 without \<open>keywords\<close>) and the same passage dictionary
  (version 7 with \<open>sefer\<close>, \<open>verse\<close> and \<open>text\<close> only, version 8 without \<open>used\<close>); a
  version ignores the fields it does not have. \<open>sefer\<close> of a summary is \<open>None\<close> in
  versions 7 and 8 when an entry comes before every book header; version 10 stores a
  string always.
\<close>

record summary =
  s_id :: int
  s_sefer :: "ustring option"
  s_verse :: ustring
  s_summary :: ustring
  s_page :: ustring
  s_keywords :: "ustring list"
    \<comment> \<open>a Python \<open>set\<close> of words: its elements in the order the set iterates them\<close>

record full_text =
  ft_sefer :: ustring
  ft_verse :: ustring
  ft_text :: ustring
  ft_text_clean :: ustring
  ft_keywords :: "ustring list"
  ft_used :: bool

text \<open>An entry of \<open>matched\<close>, in versions 8 and 10.\<close>

record match_entry =
  m_summary :: summary
  m_full_text :: "(nat \<times> full_text) option"
    \<comment> \<open>the passage object: its position in \<open>full_texts\<close>, which is its identity, and its
        value (the object is shared with \<open>full_texts\<close>, so it shows the flag \<open>used\<close> set)\<close>
  m_score :: rat

section \<open>parse\_beshalach\_v10\<close>

definition get_hebrew_words :: "ustring \<Rightarrow> ustring set" where
  "get_hebrew_words text = set (filter (\<lambda>w. 3 \<le> length w) (hebrew_runs 3 text))"

function remove_alternatives :: "ustring list \<Rightarrow> ustring \<Rightarrow> ustring" where
  \<comment> \<open>\<open>re.sub\<close> of an alternation of literal strings by the empty string: at each position the
      first alternative that matches is removed\<close>
  "remove_alternatives alts [] = []"
| "remove_alternatives alts (c # cs) =
     (case filter (\<lambda>a. a \<noteq> [] \<and> take (length a) (c # cs) = a) alts of
        a # others \<Rightarrow> remove_alternatives alts (drop (length a) (c # cs))
      | [] \<Rightarrow> c # remove_alternatives alts cs)"
  by pat_completeness auto
termination
  by (relation "measure (\<lambda>(alts, s). length s)") (auto simp: filter_eq_Cons_iff)

definition normalize_sefer :: "ustring \<Rightarrow> ustring" where
  \<comment> \<open>the honorifics that are removed: he-qof-apostrophe, ha-qadosh, and the abbreviations
      zayin-quote-lamed, zayin-yod-quote-ayin, zayin-tsadi-quote-lamed; and U+269C\<close>
  "normalize_sefer name =
     (let name1 = strip name;
          name2 = remove_alternatives
            [[1492, 1511, 39], [1492, 1511, 1491, 1493, 1513], [1494, 34, 1500], [1494, 1497, 34, 1506],
             [1494, 1510, 34, 1500], [9884]] name1;
          name3 = strip (collapse_ws name2)
      in name3)"

definition verse_norm :: "ustring \<Rightarrow> ustring" where
  \<comment> \<open>\<open>re.sub(r'[\s\-]', '', verse)\<close>\<close>
  "verse_norm verse = filter (\<lambda>c. \<not> (is_space c \<or> c = 45)) verse"

definition count_in :: "ustring list \<Rightarrow> ustring \<Rightarrow> nat" where
  \<comment> \<open>\<open>sum(1 for w in ws if w in text)\<close>\<close>
  "count_in ws text = length (filter (\<lambda>w. contains w text) ws)"

definition find_best_match_score :: "summary \<Rightarrow> full_text \<Rightarrow> rat" where
  \<comment> \<open>the body of the loop of \<open>find_best_match\<close>: the score of one unused passage\<close>
  "find_best_match_score summary ft =
     (let s_verse = s_verse summary; s_keywords = s_keywords summary; s_summary = s_summary summary;
          ft_verse = ft_verse ft;
          s_verse_norm = verse_norm s_verse;
          ft_verse_norm = verse_norm ft_verse;
          score1 =
            (if s_verse_norm = ft_verse_norm then 100
             else if contains s_verse_norm ft_verse_norm then 80
             else if contains ft_verse_norm s_verse_norm then 70
             else if length s_verse_norm > 3 \<and> length ft_verse_norm > 3 then
               (if take 4 s_verse_norm = take 4 ft_verse_norm then 50
                else if take 3 s_verse_norm = take 3 ft_verse_norm then 30
                else 0)
             else 0);
          score2 =
            (if s_keywords \<noteq> [] then
               (let ft_text_start = take 600 (ft_text_clean ft);
                    matches = count_in s_keywords ft_text_start;
                    content_score = (of_nat matches / of_nat (length s_keywords)) * 60
                in score1 + content_score)
             else score1);
          key_phrases = take 10 (hebrew_runs 4 s_summary);
          score3 =
            (if key_phrases \<noteq> [] then
               (let phrase_matches = count_in key_phrases (take 500 (ft_text_clean ft))
                in score2 + (of_nat phrase_matches / of_nat (length key_phrases)) * 40)
             else score2)
      in score3)"

definition find_best_match :: "summary \<Rightarrow> full_text list \<Rightarrow> full_text option \<times> int \<times> rat" where
  "find_best_match summary full_texts =
     (case select_best (\<lambda>idx ft. ft_used ft) (find_best_match_score summary) 40 full_texts of
        Some (best_idx, best_match, best_score) \<Rightarrow> (Some best_match, int best_idx, best_score)
      | None \<Rightarrow> (None, - 1, 0))"

fun match_all_loop :: "summary list \<Rightarrow> full_text list \<Rightarrow> match_entry list \<Rightarrow>
    py_error + (match_entry list \<times> full_text list)" where
  "match_all_loop [] full_texts matched = Inr (matched, full_texts)"
| "match_all_loop (summary # rest) full_texts matched =
     (case find_best_match summary full_texts of
        (Some ft, idx, score) \<Rightarrow>
          (case py_index full_texts idx of
             Inl e \<Rightarrow> Inl e
           | Inr i \<Rightarrow>
               match_all_loop rest (full_texts[i := (full_texts ! i)\<lparr>ft_used := True\<rparr>])
                 (matched @ [\<lparr>m_summary = summary, m_full_text = Some (i, ft\<lparr>ft_used := True\<rparr>),
                              m_score = score\<rparr>]))
      | (None, idx, score) \<Rightarrow>
          match_all_loop rest full_texts
            (matched @ [\<lparr>m_summary = summary, m_full_text = None, m_score = 0\<rparr>]))"

definition match_all :: "summary list \<Rightarrow> full_text list \<Rightarrow>
    py_error + (match_entry list \<times> full_text list)" where
  \<comment> \<open>returns \<open>matched\<close>, and \<open>full_texts\<close> as the call leaves it: the list is mutated in place\<close>
  "match_all summaries full_texts = match_all_loop summaries full_texts []"

function strip_tags :: "ustring \<Rightarrow> ustring" where
  \<comment> \<open>\<open>re.sub(r'<[^>]+>', '', text)\<close>: a \<open><\<close>, one or more characters other than \<open>>\<close>,
      and the \<open>>\<close> that follows them are removed\<close>
  "strip_tags [] = []"
| "strip_tags (c # cs) =
     (if c = 60 \<and> takeWhile (\<lambda>d. d \<noteq> 62) cs \<noteq> [] \<and> dropWhile (\<lambda>d. d \<noteq> 62) cs \<noteq> []
      then strip_tags (tl (dropWhile (\<lambda>d. d \<noteq> 62) cs))
      else c # strip_tags cs)"
  by pat_completeness auto
termination
proof (relation "measure length")
  show "wf (measure length)" by simp
next
  fix c :: nat and cs :: ustring
  have "length (tl (dropWhile (\<lambda>d. d \<noteq> 62) cs)) \<le> length cs"
    using length_dropWhile_le[of "\<lambda>d. d \<noteq> 62" cs] by simp
  then show "(tl (dropWhile (\<lambda>d. d \<noteq> 62) cs), c # cs) \<in> measure length" by simp
next
  fix c :: nat and cs :: ustring
  show "(cs, c # cs) \<in> measure length" by simp
qed

function squeeze_newlines :: "ustring \<Rightarrow> ustring" where
  \<comment> \<open>\<open>re.sub(r'\n{3,}', '\n\n', text)\<close>: a run of three or more newlines becomes two\<close>
  "squeeze_newlines [] = []"
| "squeeze_newlines (c # cs) =
     (if c = 10
      then (let run = c # takeWhile (\<lambda>d. d = 10) cs
            in (if 3 \<le> length run then [10, 10] else run) @
               squeeze_newlines (dropWhile (\<lambda>d. d = 10) cs))
      else c # squeeze_newlines cs)"
  by pat_completeness auto
termination
  by (relation "measure length") (auto simp: le_imp_less_Suc length_dropWhile_le)

definition clean_html :: "ustring \<Rightarrow> ustring" where
  "clean_html text = strip (squeeze_newlines (strip_tags text))"

definition html_head :: ustring where
  \<open>html_head = unlines
       [asc ''<!DOCTYPE html>'',
        asc ''<html lang="he" dir="rtl">'',
        asc ''<head>'',
        asc ''    <meta charset="UTF-8">'',
        asc ''    <title>'' @ [1508, 1512, 1513, 1514] @ asc '' '' @ [1489, 1513, 1500, 1495] @ asc '' - '' @ [1500, 1497, 1511, 1493, 1496, 1497] @ asc '' '' @ [1505, 1508, 1512, 1497] @ asc '' '' @ [1495, 1505, 1497, 1491, 1493, 1514] @ asc ''</title>'',
        asc ''    <style>'',
        asc ''        @page { size: A4; margin: 2cm; }'',
        asc ''        body {'',
        asc ''            font-family: 'Frank Ruehl', 'David', 'Times New Roman', serif;'',
        asc ''            font-size: 14pt;'',
        asc ''            line-height: 1.8;'',
        asc ''            direction: rtl;'',
        asc ''            text-align: justify;'',
        asc ''            max-width: 900px;'',
        asc ''            margin: 0 auto;'',
        asc ''            padding: 20px;'',
        asc ''            background: #fff;'',
        asc ''        }'',
        asc ''        .summary-entry { display: flex; align-items: baseline; margin: 8px 0; gap: 10px; }'',
        asc ''        .entry-id { font-weight: bold; min-width: 35px; }'',
        asc ''        .entry-verse { font-weight: bold; color: #333; min-width: 80px; }'',
        asc ''        .entry-summary { flex: 1; }'',
        asc ''        .entry-page { font-weight: bold; min-width: 45px; text-align: left; }'',
        asc ''        .divider { border-top: 2px solid #000; margin: 30px 0; }'',
        asc ''        .source-header { text-align: center; font-weight: bold; font-size: 20pt; margin: 25px 0; }'',
        asc ''        .sefer-header { text-align: center; font-weight: bold; font-size: 16pt; margin: 25px 0 15px 0; background: #f0f0f0; padding: 10px; border-radius: 4px; }'',
        asc ''        .quote-entry { margin-bottom: 30px; padding: 20px; border: 1px solid #ccc; border-radius: 6px; background: #fafafa; }'',
        asc ''        .quote-header { display: flex; gap: 20px; margin-bottom: 12px; font-weight: bold; font-size: 15pt; border-bottom: 2px solid #ddd; padding-bottom: 10px; }'',
        asc ''        .quote-text { text-align: justify; line-height: 2; font-size: 14pt; }'',
        asc ''        .no-match { color: #999; font-style: italic; }'',
        asc ''        h1 { text-align: center; font-size: 24pt; margin-bottom: 5px; }'',
        asc ''        h2 { text-align: center; font-size: 18pt; margin-top: 5px; color: #555; }'',
        asc ''    </style>'',
        asc ''</head>'',
        asc ''<body>'',
        asc ''    <h1>'' @ [1500, 1497, 1511, 1493, 1496, 1497] @ asc '' '' @ [1505, 1508, 1512, 1497] @ asc '' '' @ [1495, 1505, 1497, 1491, 1493, 1514] @ asc ''</h1>'',
        asc ''    <h2>'' @ [1508, 1512, 1513, 1514] @ asc '' '' @ [1489, 1513, 1500, 1495] @ asc ''</h2>'',
        asc ''    <div class="divider"></div>'',
        asc ''    <section>'',
        asc ''        <div class="source-header">'' @ [1502, 1508, 1514, 1495] @ asc '' '' @ [1506, 1504, 1497, 1504, 1497, 1501] @ asc ''</div>'']\<close>

definition str_opt :: "ustring option \<Rightarrow> ustring" where
  \<comment> \<open>a string or \<open>None\<close>, as an f-string renders it\<close>
  "str_opt v = (case v of None \<Rightarrow> asc ''None'' | Some s \<Rightarrow> s)"

definition sefer_header_html :: "ustring option \<Rightarrow> ustring" where
  \<open>sefer_header_html current_sefer =
     asc ''        <div class="sefer-header">'' @ str_opt current_sefer @ asc ''</div>'' @ [10]\<close>

definition summary_entry_html :: "summary \<Rightarrow> ustring" where
  \<open>summary_entry_html s = unlines
     [asc ''        <div class="summary-entry">'',
      asc ''            <span class="entry-id">['' @ str_int (s_id s) @ asc '']</span>'',
      asc ''            <span class="entry-verse">'' @ s_verse s @ asc ''</span>'',
      asc ''            <span class="entry-summary">'' @ s_summary s @ asc ''</span>'',
      asc ''            <span class="entry-page">'' @ s_page s @ asc ''</span>'',
      asc ''        </div>'']\<close>

fun summary_section :: "match_entry list \<Rightarrow> ustring option \<Rightarrow> ustring" where
  \<comment> \<open>the first loop of \<open>generate_html\<close>; the second argument is \<open>current_sefer\<close>\<close>
  "summary_section [] current_sefer = []"
| "summary_section (entry # rest) current_sefer =
     (let s = m_summary entry
      in (if s_sefer s \<noteq> current_sefer then sefer_header_html (s_sefer s) else []) @
         summary_entry_html s @ summary_section rest (s_sefer s))"

definition html_middle :: ustring where
  \<open>html_middle = unlines
     [asc ''    </section>'',
      asc ''    <div class="divider"></div>'',
      asc ''    <section>'',
      asc ''        <div class="source-header">'' @ [1502, 1511, 1493, 1512] @ asc '' '' @
        [1492, 1513, 1508, 1506] @ asc ''</div>'']\<close>

definition no_match_text :: ustring where
  \<comment> \<open>the placeholder of an entry without a passage\<close>
  \<open>no_match_text =
     asc ''<span class="no-match">['' @ [1500, 1488] @ asc '' '' @ [1504, 1502, 1510, 1488] @ asc '' '' @
     [1496, 1511, 1505, 1496] @ asc '' '' @ [1502, 1514, 1488, 1497, 1501] @ asc '']</span>''\<close>

definition quote_text :: "match_entry \<Rightarrow> ustring" where
  \<comment> \<open>the variable \<open>text\<close> of the second loop of \<open>generate_html\<close>\<close>
  "quote_text entry =
     (case m_full_text entry of
        Some (i, ft) \<Rightarrow>
          (let text = clean_html (ft_text ft)
           in if length text > 3000 then take 3000 text @ [10, 10] @ asc ''[...]'' else text)
      | None \<Rightarrow> no_match_text)"

definition quote_entry_html :: "match_entry \<Rightarrow> ustring" where
  \<open>quote_entry_html entry =
     (let s = m_summary entry
      in unlines
        [asc ''        <div class="quote-entry">'',
         asc ''            <div class="quote-header">'',
         asc ''                <span>['' @ str_int (s_id s) @ asc '']</span>'',
         asc ''                <span>'' @ s_verse s @ asc ''</span>'',
         asc ''                <span>'' @ [1506, 1502, 39, 32] @ s_page s @ asc ''</span>'',
         asc ''            </div>'',
         asc ''            <div class="quote-text">'' @ quote_text entry @ asc ''</div>'',
         asc ''        </div>''])\<close>

fun quote_section :: "match_entry list \<Rightarrow> ustring option \<Rightarrow> ustring" where
  \<comment> \<open>the second loop of \<open>generate_html\<close>\<close>
  "quote_section [] current_sefer = []"
| "quote_section (entry # rest) current_sefer =
     (let s = m_summary entry
      in (if s_sefer s \<noteq> current_sefer then sefer_header_html (s_sefer s) else []) @
         quote_entry_html entry @ quote_section rest (s_sefer s))"

definition html_tail :: ustring where
  "html_tail = asc ''    </section>'' @ [10] @ asc ''</body>'' @ [10] @ asc ''</html>''"

definition generate_html :: "match_entry list \<Rightarrow> ustring" where
  "generate_html matched =
     html_head @ summary_section matched None @ html_middle @ quote_section matched None @ html_tail"

text \<open>
  \<open>generate_word\<close> builds the document through the \<open>docx\<close> library. The model keeps
  what it adds, in order: paragraphs with their text, and page breaks. Alignment, fonts
  and the right-to-left flag are left out.
\<close>

datatype doc_item = Paragraph ustring | PageBreak

definition word_text :: "full_text \<Rightarrow> ustring" where
  \<comment> \<open>the variable \<open>ft_text\<close> of \<open>generate_word\<close>\<close>
  "word_text ft =
     (let ft_text = clean_html (ft_text ft)
      in if length ft_text > 2500 then take 2500 ft_text @ asc '' [...]'' else ft_text)"

definition word_entry :: "nat \<Rightarrow> nat \<Rightarrow> match_entry \<Rightarrow> full_text \<Rightarrow> doc_item list" where
  \<comment> \<open>what one matched entry, the \<open>i\<close>-th of \<open>n\<close>, adds to the document\<close>
  "word_entry n i entry ft =
     (let s = m_summary entry
      in [Paragraph ([91] @ str_int (s_id s) @ [93, 32] @ s_verse s @ [32, 40, 1506, 1502, 39, 32] @
                     s_page s @ [41]),
          Paragraph (s_summary s),
          Paragraph (replicate 50 95),
          Paragraph ([1502, 1511, 1493, 1512, 58]),
          Paragraph (word_text ft)] @
         (if int i < int n - 1 then [PageBreak] else []))"

fun generate_word_loop :: "nat \<Rightarrow> nat \<Rightarrow> match_entry list \<Rightarrow> doc_item list \<times> nat \<Rightarrow>
    doc_item list \<times> nat" where
  \<comment> \<open>the loop over \<open>enumerate(matched)\<close>; the state is the document and \<open>count\<close>\<close>
  "generate_word_loop n i [] st = st"
| "generate_word_loop n i (entry # rest) (doc, count) =
     (case m_full_text entry of
        None \<Rightarrow> generate_word_loop n (Suc i) rest (doc, count)
      | Some (r, ft) \<Rightarrow>
          generate_word_loop n (Suc i) rest (doc @ word_entry n i entry ft, count + 1))"

definition word_title :: ustring where
  "word_title = [1500, 1497, 1511, 1493, 1496, 1497] @ asc '' '' @ [1505, 1508, 1512, 1497] @ asc '' '' @
     [1495, 1505, 1497, 1491, 1493, 1514] @ asc '' - '' @ [1508, 1512, 1513, 1514] @ asc '' '' @
     [1489, 1513, 1500, 1495]"

definition generate_word :: "match_entry list \<Rightarrow> doc_item list \<times> nat" where
  \<comment> \<open>returns the document that is saved and \<open>count\<close>\<close>
  "generate_word matched =
     generate_word_loop (length matched) 0 matched ([Paragraph word_title, Paragraph []], 0)"

definition matched_refs :: "match_entry list \<Rightarrow> nat list" where
  \<comment> \<open>the passages that the entries of \<open>matched\<close> hold, by identity, in order\<close>
  "matched_refs matched = map fst (List.map_filter m_full_text matched)"

definition entry_ok :: "full_text list \<Rightarrow> match_entry \<Rightarrow> bool" where
  \<comment> \<open>an entry of \<open>matched\<close> against the list \<open>full_texts\<close>: without a passage its score is 0;
      with one, the passage is the element of the list at its position, is marked used,
      and the score is at least the threshold\<close>
  "entry_ok full_texts e =
     (case m_full_text e of
        None \<Rightarrow> m_score e = 0
      | Some (i, ft) \<Rightarrow> i < length full_texts \<and> full_texts ! i = ft \<and> ft_used ft \<and> 40 \<le> m_score e)"

section \<open>parse\_beshalach\_v8\<close>

definition normalize_v8 :: "ustring \<Rightarrow> ustring" where
  \<comment> \<open>\<open>normalize\<close> of version 8: whitespace, quotes, dashes, the Hebrew maqaf, geresh and
      gershayim, and \<open>. , : ; ! ? ( ) [ ]\<close> are removed\<close>
  "normalize_v8 text =
     strip (filter (\<lambda>c. \<not> (is_space c \<or>
       c \<in> {34, 39, 45, 1470, 8211, 8212, 1523, 1524, 46, 44, 58, 59, 33, 63, 40, 41, 91, 93})) text)"

definition content_match_score :: "summary \<Rightarrow> full_text \<Rightarrow> rat" where
  "content_match_score summary full_text =
     (let summary_keywords = s_keywords summary; ft_keywords = ft_keywords full_text
      in if summary_keywords = [] then 0
         else
           (let matches = length (filter (\<lambda>w. w \<in> set ft_keywords) summary_keywords);
                score = of_nat matches / of_nat (length summary_keywords);
                ft_start = normalize_v8 (take 500 (ft_text_clean full_text));
                summary_words = filter (\<lambda>w. 3 \<le> length w) (hebrew_runs 3 (s_summary summary));
                phrase_matches = count_in summary_words ft_start
            in if summary_words \<noteq> []
               then max score (of_nat phrase_matches / of_nat (length summary_words))
               else score))"

definition total_score :: "summary \<Rightarrow> full_text \<Rightarrow> rat" where
  \<comment> \<open>the body of the inner loop of \<open>match_summaries_to_full_texts\<close>\<close>
  "total_score summary ft =
     (let content_score = content_match_score summary ft;
          s_verse = normalize_v8 (s_verse summary);
          ft_verse = normalize_v8 (ft_verse ft);
          verse_bonus =
            (if s_verse \<noteq> [] \<and> ft_verse \<noteq> [] then
               (if contains s_verse ft_verse \<or> contains ft_verse s_verse then 2 / 10
                else if take 3 s_verse = take 3 ft_verse then 1 / 10
                else 0)
             else 0)
      in content_score + verse_bonus)"

definition best_full_text :: "summary \<Rightarrow> full_text list \<Rightarrow> nat set \<Rightarrow> (nat \<times> full_text \<times> rat) option" where
  \<comment> \<open>the inner loop of \<open>match_summaries_to_full_texts\<close> and its threshold test, for one
      summary\<close>
  "best_full_text summary full_texts used_indices =
     select_best (\<lambda>idx ft. idx \<in> used_indices) (total_score summary) (25 / 100) full_texts"

fun match_summaries_loop :: "summary list \<Rightarrow> full_text list \<Rightarrow> nat set \<Rightarrow> match_entry list \<Rightarrow>
    match_entry list" where
  \<comment> \<open>the outer loop; the state is \<open>used_indices\<close> and \<open>matched\<close>\<close>
  "match_summaries_loop [] full_texts used_indices matched = matched"
| "match_summaries_loop (summary # rest) full_texts used_indices matched =
     (case best_full_text summary full_texts used_indices of
        Some (best_idx, best_match, best_score) \<Rightarrow>
          match_summaries_loop rest full_texts (insert best_idx used_indices)
            (matched @ [\<lparr>m_summary = summary, m_full_text = Some (best_idx, best_match),
                         m_score = best_score\<rparr>])
      | None \<Rightarrow>
          match_summaries_loop rest full_texts used_indices
            (matched @ [\<lparr>m_summary = summary, m_full_text = None, m_score = 0\<rparr>]))"

definition match_summaries_to_full_texts :: "summary list \<Rightarrow> full_text list \<Rightarrow> match_entry list" where
  "match_summaries_to_full_texts summaries full_texts =
     match_summaries_loop summaries full_texts {} []"

section \<open>parse\_beshalach\_v7\<close>

definition normalize_v7 :: "ustring \<Rightarrow> ustring" where
  \<comment> \<open>\<open>normalize\<close> of version 7: whitespace, quotes, dashes, the Hebrew maqaf, geresh and
      gershayim are removed\<close>
  "normalize_v7 text =
     strip (filter (\<lambda>c. \<not> (is_space c \<or> c \<in> {34, 39, 45, 1470, 8211, 8212, 1523, 1524})) text)"

fun common_prefix :: "ustring \<Rightarrow> ustring \<Rightarrow> nat" where
  \<comment> \<open>the loop over \<open>zip(verse, ft_verse)\<close> that counts equal characters up to the first
      difference\<close>
  "common_prefix (c1 # r1) (c2 # r2) = (if c1 = c2 then Suc (common_prefix r1 r2) else 0)"
| "common_prefix r1 r2 = 0"

definition match_summary_to_fulltext_score :: "ustring \<Rightarrow> ustring \<Rightarrow> ustring \<Rightarrow> full_text \<Rightarrow> int" where
  \<comment> \<open>the body of the loop of \<open>match_summary_to_fulltext\<close>, for the normalised \<open>sefer\<close>,
      \<open>verse\<close> and \<open>summary_text\<close> of the summary\<close>
  "match_summary_to_fulltext_score sefer verse summary_text ft =
     (let ft_sefer = normalize_v7 (ft_sefer ft);
          ft_verse = normalize_v7 (ft_verse ft);
          ft_text = normalize_v7 (take 500 (ft_text ft));
          score1 =
            (if sefer = ft_sefer then 30
             else if length sefer > 4 \<and> length ft_sefer > 4 then
               (if contains sefer ft_sefer \<or> contains ft_sefer sefer then 20
                else if take 4 sefer = take 4 ft_sefer then 15
                else 0)
             else 0);
          score2 =
            (if verse = ft_verse then score1 + 100
             else if length verse > 2 \<and> length ft_verse > 2 then
               (if contains verse ft_verse then score1 + 80
                else if contains ft_verse verse then score1 + 70
                else (let common = common_prefix verse ft_verse
                      in if common \<ge> 2 then score1 + (30 + int common * 10) else score1))
             else score1);
          summary_words = remdups (hebrew_runs 1 summary_text);
          score3 =
            (if length summary_words > 3 then
               (let matches = count_in summary_words ft_text;
                    content_ratio = (of_nat matches :: rat) / of_nat (length summary_words)
                in if content_ratio > 3 / 10 then score2 + \<lfloor>content_ratio * 50\<rfloor> else score2)
             else score2)
      in score3)"

definition match_summary_to_fulltext :: "summary \<Rightarrow> full_text list \<Rightarrow> nat set \<Rightarrow>
    py_error + ((nat \<times> full_text) option \<times> nat set)" where
  \<comment> \<open>returns the passage, by position and value, and \<open>used_indices\<close> as the call leaves it;
      \<open>normalize(None)\<close> raises \<open>TypeError\<close>\<close>
  "match_summary_to_fulltext summary full_texts used_indices =
     (case s_sefer summary of
        None \<Rightarrow> Inl TypeError
      | Some raw_sefer \<Rightarrow>
          (let sefer = normalize_v7 raw_sefer;
               verse = normalize_v7 (s_verse summary);
               summary_text = normalize_v7 (s_summary summary)
           in case select_best (\<lambda>idx ft. idx \<in> used_indices)
                     (match_summary_to_fulltext_score sefer verse summary_text) 50 full_texts of
                Some (best_idx, best_match, best_score) \<Rightarrow>
                  Inr (Some (best_idx, best_match), insert best_idx used_indices)
              | None \<Rightarrow> Inr (None, used_indices)))"

section \<open>parse\_summaries\_to\_content\<close>

definition is_nikud :: "nat \<Rightarrow> bool" where
  \<comment> \<open>the class U+0591 to U+05C7\<close>
  "is_nikud c \<longleftrightarrow> 1425 \<le> c \<and> c \<le> 1479"

definition is_punct :: "nat \<Rightarrow> bool" where
  \<comment> \<open>the class of \<open>. , ; : ! ? -\<close>, U+2013 and U+2014\<close>
  "is_punct c \<longleftrightarrow> c \<in> {46, 44, 59, 58, 33, 63, 45, 8211, 8212}"

definition normalize_text :: "ustring \<Rightarrow> ustring" where
  "normalize_text text =
     (let text1 = filter (\<lambda>c. \<not> is_nikud c) text;
          text2 = map (\<lambda>c. if is_punct c then 32 else c) text1;
          text3 = collapse_ws text2
      in strip text3)"

text \<open>
  A string in which every whitespace character is a space that no whitespace follows.
\<close>

fun single_spaced :: "ustring \<Rightarrow> bool" where
  "single_spaced [] = True"
| "single_spaced [c] = (is_space c \<longrightarrow> c = 32)"
| "single_spaced (c # d # cs) = ((is_space c \<longrightarrow> c = 32 \<and> \<not> is_space d) \<and> single_spaced (d # cs))"

record ContentSection =
  cs_author :: ustring
  cs_text :: ustring
  cs_page_number :: ustring
  cs_start_line :: int
  cs_end_line :: int
  cs_opening_phrases :: "ustring list"

record Summary =
  sm_author :: ustring
  sm_opening_words :: ustring
  sm_summary_text :: ustring
  sm_page_ref :: ustring
  sm_line_number :: int
  sm_matched_content :: "ContentSection option"
  sm_match_confidence :: rat

definition hebrew_nums :: "nat \<rightharpoonup> int" where
  \<comment> \<open>the table of the letters alef to tav and their values\<close>
  "hebrew_nums = map_of
     [(1488, 1), (1489, 2), (1490, 3), (1491, 4), (1492, 5), (1493, 6), (1494, 7), (1495, 8), (1496, 9),
      (1497, 10), (1499, 20), (1500, 30), (1502, 40), (1504, 50), (1505, 60), (1506, 70), (1508, 80),
      (1510, 90), (1511, 100), (1512, 200), (1513, 300), (1514, 400)]"

fun add_letters :: "ustring \<Rightarrow> int \<Rightarrow> int" where
  \<comment> \<open>the loop of \<open>hebrew_page_to_int\<close>; the state \<open>tot\<close> is \<open>total\<close>\<close>
  "add_letters [] tot = tot"
| "add_letters (char # rest) tot =
     (case hebrew_nums char of
        Some v \<Rightarrow> add_letters rest (tot + v)
      | None \<Rightarrow> add_letters rest tot)"

definition hebrew_page_to_int :: "ustring \<Rightarrow> int" where
  "hebrew_page_to_int page = add_letters (filter (\<lambda>c. c \<noteq> 39 \<and> c \<noteq> 34 \<and> c \<noteq> 32) page) 0"

text \<open>
  \<open>similarity_score\<close> calls \<open>SequenceMatcher(None, a, b).ratio()\<close> of the standard
  library \<open>difflib\<close>, which is not code of the scripts. The model takes that function as
  the parameter \<open>ratio\<close>; its documentation gives it the range from 0 to 1.
\<close>

definition similarity_score :: "(ustring \<Rightarrow> ustring \<Rightarrow> rat) \<Rightarrow> ustring \<Rightarrow> ustring \<Rightarrow> rat" where
  "similarity_score ratio a b = ratio (normalize_text a) (normalize_text b)"

definition exact_match_ratio :: "ustring \<Rightarrow> ustring \<Rightarrow> rat" where
  \<comment> \<open>an instance of \<open>ratio\<close> for the examples: 1 for two equal strings, as
      \<open>SequenceMatcher\<close> gives them, and 0 otherwise, as it gives two strings without a
      common character\<close>
  "exact_match_ratio a b = (if a = b then 1 else 0)"

fun best_phrase_score :: "(ustring \<Rightarrow> ustring \<Rightarrow> rat) \<Rightarrow> ustring \<Rightarrow> ustring list \<Rightarrow> rat \<Rightarrow> rat" where
  \<comment> \<open>the loop over \<open>section.opening_phrases\<close>; the state is \<open>best_phrase_score\<close>, and an
      exact match leaves the loop\<close>
  "best_phrase_score ratio opening_normalized [] best = best"
| "best_phrase_score ratio opening_normalized (phrase # rest) best =
     (let phrase_norm = normalize_text phrase
      in if opening_normalized = phrase_norm then 1
         else if contains opening_normalized phrase_norm
           then best_phrase_score ratio opening_normalized rest (max best (9 / 10))
         else if contains phrase_norm opening_normalized
           then best_phrase_score ratio opening_normalized rest (max best (8 / 10))
         else (let sim = similarity_score ratio opening_normalized phrase_norm
               in if sim > 7 / 10
                  then best_phrase_score ratio opening_normalized rest (max best sim)
                  else best_phrase_score ratio opening_normalized rest best))"

definition section_score :: "(ustring \<Rightarrow> ustring \<Rightarrow> rat) \<Rightarrow> Summary \<Rightarrow> ContentSection \<times> rat \<Rightarrow> rat" where
  \<comment> \<open>the body of the loop over \<open>author_sections\<close>: the score of one section of the
      summary's author, with its author similarity\<close>
  "section_score ratio summary sa =
     (let section = fst sa; author_sim = snd sa;
          opening_normalized = normalize_text (sm_opening_words summary);
          score1 = best_phrase_score ratio opening_normalized (cs_opening_phrases section) 0 * (4 / 10);
          content_normalized = normalize_text (cs_text section);
          score2 = (if contains opening_normalized content_normalized then score1 + 15 / 100 else score1);
          score3 =
            (if sm_page_ref summary \<noteq> [] \<and> cs_page_number section \<noteq> [] then
               (let summary_page = hebrew_page_to_int (sm_page_ref summary);
                    section_page = hebrew_page_to_int (cs_page_number section);
                    page_diff = \<bar>summary_page - section_page\<bar>
                in if page_diff = 0 then score2 + 3 / 10
                   else if page_diff \<le> 1 then score2 + 2 / 10
                   else if page_diff \<le> 3 then score2 + 1 / 10
                   else score2)
             else score2)
      in score3 + author_sim * (3 / 10))"

definition author_sections :: "(ustring \<Rightarrow> ustring \<Rightarrow> rat) \<Rightarrow> ContentSection list \<Rightarrow> Summary \<Rightarrow>
    (ContentSection \<times> rat) list" where
  \<comment> \<open>the sections whose author is similar to the summary's, each with the similarity\<close>
  "author_sections ratio content_sections summary =
     filter (\<lambda>sa. snd sa > 7 / 10)
       (map (\<lambda>section. (section, similarity_score ratio (cs_author section) (sm_author summary)))
          content_sections)"

definition map_summary :: "(ustring \<Rightarrow> ustring \<Rightarrow> rat) \<Rightarrow> ContentSection list \<Rightarrow> Summary \<Rightarrow> Summary" where
  \<comment> \<open>one iteration of the loop of \<open>_map_summaries_to_content\<close>: the summary as the
      iteration leaves it\<close>
  "map_summary ratio content_sections summary =
     (let sections = author_sections ratio content_sections summary
      in if sections = [] then summary
         else (case scan_best (\<lambda>idx sa. False) (section_score ratio summary) 0 sections (None, 0) of
                 (Some (idx, (best_match, author_sim)), best_score) \<Rightarrow>
                   if best_score > 25 / 100
                   then summary\<lparr>sm_matched_content := Some best_match, sm_match_confidence := best_score\<rparr>
                   else summary
               | (None, best_score) \<Rightarrow> summary))"

definition map_summaries_to_content :: "(ustring \<Rightarrow> ustring \<Rightarrow> rat) \<Rightarrow> Summary list \<Rightarrow>
    ContentSection list \<Rightarrow> py_error + Summary list" where
  \<comment> \<open>\<open>self.summaries\<close> as \<open>_map_summaries_to_content\<close> leaves it; the percentage that the last
      line prints divides by \<open>len(self.summaries)\<close>\<close>
  "map_summaries_to_content ratio summaries content_sections =
     (if summaries = [] then Inl ZeroDivisionError
      else Inr (map (map_summary ratio content_sections) summaries))"

section \<open>ocr\_summaries\_index and ocr\_retry\_failed\<close>


datatype event = Post | Sleep nat



record world =
  requests_made :: nat
  events :: "event list"



definition post :: "world \<Rightarrow> world" where
  "post w = w\<lparr>requests_made := requests_made w + 1, events := events w @ [Post]\<rparr>"










section \<open>Example inputs\<close>

text \<open>
  Summaries and passages for the examples, as the extraction of the scripts builds them:
  a passage begins with its verse in bold and is longer than 50 characters (100 in
  version 8), and the keywords are the words of the text. \<open>ex_summary\<close> and \<open>ex_passage\<close>
  have the same verse and different books; \<open>ex_other_passage\<close> has another verse. The
  summary of \<open>ex_kw_summary\<close> has four words of four letters, the third twice, and one of
  three letters; the passage \<open>ex_kw_passage\<close> has the first and the last of them.
\<close>

definition ex_verse :: ustring where
  "ex_verse = [1493, 1497, 1492, 1497]"

definition ex_filler :: ustring where
  \<comment> \<open>seventeen times a word of two letters, 50 characters\<close>
  "ex_filler =
     [1513, 1500, 32, 1513, 1500, 32, 1513, 1500, 32, 1513, 1500, 32, 1513, 1500, 32,
      1513, 1500, 32, 1513, 1500, 32, 1513, 1500, 32, 1513, 1500, 32, 1513, 1500, 32,
      1513, 1500, 32, 1513, 1500, 32, 1513, 1500, 32, 1513, 1500, 32, 1513, 1500, 32,
      1513, 1500, 32, 1513, 1500]"

definition ex_body :: ustring where
  "ex_body = 32 # ex_filler"

definition ex_summary :: "int \<Rightarrow> summary" where
  "ex_summary n = \<lparr>s_id = n, s_sefer = Some [1488], s_verse = ex_verse, s_summary = [1488, 1489],
     s_page = [1497], s_keywords = []\<rparr>"

definition ex_passage :: "ustring \<Rightarrow> bool \<Rightarrow> full_text" where
  "ex_passage body u = \<lparr>ft_sefer = [1489], ft_verse = ex_verse,
     ft_text = asc ''<b>'' @ ex_verse @ asc ''</b>'' @ body, ft_text_clean = ex_verse @ body,
     ft_keywords = [ex_verse], ft_used = u\<rparr>"

definition ex_other_passage :: full_text where
  "ex_other_passage = \<lparr>ft_sefer = [1489], ft_verse = [1500, 1501],
     ft_text = asc ''<b>'' @ [1500, 1501] @ asc ''</b>'' @ ex_body, ft_text_clean = [1500, 1501] @ ex_body,
     ft_keywords = [], ft_used = False\<rparr>"

definition ex_words :: "ustring list" where
  "ex_words = [[1488, 1489, 1490, 1491], [1492, 1493, 1494, 1495], [1496, 1497, 1499, 1500],
     [1502, 1504, 1505]]"

definition ex_kw_summary :: "ustring list \<Rightarrow> summary" where
  "ex_kw_summary keywords = \<lparr>s_id = 7, s_sefer = Some [1488], s_verse = [1511],
     s_summary = [1488, 1489, 1490, 1491, 32, 1492, 1493, 1494, 1495, 32, 1496, 1497, 1499, 1500, 32,
                  1496, 1497, 1499, 1500, 32, 1502, 1504, 1505],
     s_page = [1497], s_keywords = keywords\<rparr>"

definition ex_kw_passage :: full_text where
  "ex_kw_passage = \<lparr>ft_sefer = [1488], ft_verse = [1512],
     ft_text = asc ''<b>'' @ [1512] @ asc ''</b>'' @
       [32, 1488, 1489, 1490, 1491, 32, 1502, 1504, 1505] @ ex_body,
     ft_text_clean = [1512, 32, 1488, 1489, 1490, 1491, 32, 1502, 1504, 1505] @ ex_body,
     ft_keywords = [[1488, 1489, 1490, 1491], [1502, 1504, 1505]], ft_used = False\<rparr>"

definition ex_summary8 :: "int \<Rightarrow> summary" where
  "ex_summary8 n = (ex_summary n)\<lparr>s_keywords := [[1488, 1489]]\<rparr>"

definition ex_body8 :: ustring where
  "ex_body8 = [32, 1488, 1489, 32] @ ex_filler @ [32] @ ex_filler"

definition ex_passage8 :: "ustring \<Rightarrow> full_text" where
  "ex_passage8 body =
     (ex_passage body False)\<lparr>ft_keywords := [ex_verse, [1488, 1489], [1513, 1500]]\<rparr>"

definition ex_long_passage :: "nat \<Rightarrow> full_text" where
  \<comment> \<open>a passage whose text is its verse in bold and a letter \<open>n\<close> times\<close>
  "ex_long_passage n = \<lparr>ft_sefer = [1489], ft_verse = ex_verse,
     ft_text = asc ''<b>'' @ ex_verse @ asc ''</b>'' @ replicate n 1488,
     ft_text_clean = ex_verse @ replicate n 1488,
     ft_keywords = [take 800 (ex_verse @ replicate n 1488)], ft_used = True\<rparr>"

definition ex_entry :: "nat \<Rightarrow> match_entry" where
  "ex_entry n = \<lparr>m_summary = ex_summary 1, m_full_text = Some (0, ex_long_passage n), m_score = 100\<rparr>"

definition ex_sm :: Summary where
  "ex_sm = \<lparr>sm_author = [1488], sm_opening_words = [1489, 1490, 1491],
     sm_summary_text = [1489, 1490, 1491, 32, 1513, 1500, 32, 1513, 1500, 32, 1513, 1500],
     sm_page_ref = [1497], sm_line_number = 80, sm_matched_content = None, sm_match_confidence = 0\<rparr>"

definition ex_cs :: "ustring \<Rightarrow> ContentSection" where
  "ex_cs author = \<lparr>cs_author = author,
     cs_text = asc ''<b>'' @ [1489, 1490, 1491] @ asc ''</b>'' @ ex_body @ [10] @
       asc ''<footer>'' @ [1497] @ asc ''</footer>'',
     cs_page_number = [1497], cs_start_line = 500, cs_end_line = 520,
     cs_opening_phrases = [[1489, 1490, 1491]]\<rparr>"



section \<open>The candidate scan and the matcher of version 10\<close>


lemma scan_best_snoc:
  "scan_best skip score n (xs @ [x]) st =
     scan_step skip score (n + length xs) x (scan_best skip score n xs st)"
  by (induction xs arbitrary: n st) auto

lemma scan_best_inv:
  fixes score :: "'p \<Rightarrow> 's::linorder"
  shows "case scan_best skip score 0 xs (None, s0) of
     (None, s) \<Rightarrow> s = s0 \<and> (\<forall>j<length xs. \<not> skip j (xs ! j) \<longrightarrow> score (xs ! j) \<le> s0)
   | (Some (i, ft), s) \<Rightarrow>
       i < length xs \<and> ft = xs ! i \<and> \<not> skip i ft \<and> s = score ft \<and> s0 < s \<and>
       (\<forall>j<length xs. \<not> skip j (xs ! j) \<longrightarrow> score (xs ! j) \<le> s) \<and>
       (\<forall>j<i. \<not> skip j (xs ! j) \<longrightarrow> score (xs ! j) < s)"
proof (induction xs rule: rev_induct)
  case Nil
  show ?case by simp
next
  case (snoc x xs)
  obtain b s where st: "scan_best skip score 0 xs (None, s0) = (b, s)" by (cases "scan_best skip score 0 xs (None, s0)")
  show ?case
  proof (cases b)
    case None
    with snoc st have s: "s = s0" and le: "\<forall>j<length xs. \<not> skip j (xs ! j) \<longrightarrow> score (xs ! j) \<le> s0"
      by auto
    show ?thesis
    proof (cases "skip (length xs) x \<or> \<not> s0 < score x")
      case True
      then have "scan_best skip score 0 (xs @ [x]) (None, s0) = (None, s0)"
        by (auto simp: scan_best_snoc st None s scan_step_def)
      then show ?thesis using le True by (auto simp: less_Suc_eq nth_append)
    next
      case False
      then have "scan_best skip score 0 (xs @ [x]) (None, s0) = (Some (length xs, x), score x)"
        by (auto simp: scan_best_snoc st None s scan_step_def)
      then show ?thesis using le False by (auto simp: less_Suc_eq nth_append) 
    qed
  next
    case (Some p)
    obtain i ft where p: "p = (i, ft)" by (cases p)
    from snoc st Some p have inv: "i < length xs" "ft = xs ! i" "\<not> skip i ft" "s = score ft" "s0 < s"
      "\<forall>j<length xs. \<not> skip j (xs ! j) \<longrightarrow> score (xs ! j) \<le> s"
      "\<forall>j<i. \<not> skip j (xs ! j) \<longrightarrow> score (xs ! j) < s"
      by auto
    show ?thesis
    proof (cases "skip (length xs) x \<or> \<not> s < score x")
      case True
      then have "scan_best skip score 0 (xs @ [x]) (None, s0) = (Some (i, ft), s)"
        by (auto simp: scan_best_snoc st Some p scan_step_def)
      then show ?thesis using inv True by (auto simp: less_Suc_eq nth_append)
    next
      case False
      then have "scan_best skip score 0 (xs @ [x]) (None, s0) = (Some (length xs, x), score x)"
        by (auto simp: scan_best_snoc st Some p scan_step_def)
      moreover have "\<forall>j<length xs. \<not> skip j (xs ! j) \<longrightarrow> score (xs ! j) < score x"
        using inv(6) False by (meson le_less_trans not_le)
      ultimately show ?thesis using inv False by (auto simp: less_Suc_eq nth_append)
    qed
  qed
qed


lemma select_best_cases:
  fixes score :: "'p \<Rightarrow> 's::{linorder,zero}"
  assumes "0 < threshold"
  shows "(\<exists>i. i < length xs \<and> \<not> skip i (xs ! i) \<and> threshold \<le> score (xs ! i) \<and>
            select_best skip score threshold xs = Some (i, xs ! i, score (xs ! i)) \<and>
            (\<forall>j<length xs. \<not> skip j (xs ! j) \<longrightarrow> score (xs ! j) \<le> score (xs ! i)) \<and>
            (\<forall>j<i. \<not> skip j (xs ! j) \<longrightarrow> score (xs ! j) < score (xs ! i))) \<or>
         (select_best skip score threshold xs = None \<and>
            (\<forall>j<length xs. \<not> skip j (xs ! j) \<longrightarrow> score (xs ! j) < threshold))"
proof -
  let ?r = "scan_best skip score 0 xs (None, 0)"
  note inv = scan_best_inv[where skip = skip and score = score and xs = xs and ?s0.0 = 0]
  obtain b sc where r: "?r = (b, sc)" by (cases ?r)
  show ?thesis
  proof (cases b)
    case None
    then have "\<forall>j<length xs. \<not> skip j (xs ! j) \<longrightarrow> score (xs ! j) \<le> 0"
      using inv r by simp
    then have "\<forall>j<length xs. \<not> skip j (xs ! j) \<longrightarrow> score (xs ! j) < threshold"
      using assms by (meson le_less_trans)
    moreover have "select_best skip score threshold xs = None"
      by (simp add: select_best_def r None)
    ultimately show ?thesis by blast
  next
    case (Some p)
    obtain i ft where p: "p = (i, ft)" by (cases p)
    have h: "i < length xs" "ft = xs ! i" "\<not> skip i ft" "sc = score ft"
      "\<forall>j<length xs. \<not> skip j (xs ! j) \<longrightarrow> score (xs ! j) \<le> sc"
      "\<forall>j<i. \<not> skip j (xs ! j) \<longrightarrow> score (xs ! j) < sc"
      using inv r Some p by auto
    show ?thesis
    proof (cases "threshold \<le> sc")
      case True
      then have "select_best skip score threshold xs = Some (i, xs ! i, score (xs ! i))"
        using h by (simp add: select_best_def r Some p)
      then show ?thesis using h True by blast
    next
      case False
      then have "select_best skip score threshold xs = None"
        by (simp add: select_best_def r Some p)
      moreover have "\<forall>j<length xs. \<not> skip j (xs ! j) \<longrightarrow> score (xs ! j) < threshold"
        using h(5) False by (meson le_less_trans not_le)
      ultimately show ?thesis by blast
    qed
  qed
qed

lemma find_best_match_cases:
  "(\<exists>i. i < length fts \<and> \<not> ft_used (fts ! i) \<and> 40 \<le> find_best_match_score s (fts ! i) \<and>
        find_best_match s fts = (Some (fts ! i), int i, find_best_match_score s (fts ! i)) \<and>
        (\<forall>j<length fts. \<not> ft_used (fts ! j) \<longrightarrow>
           find_best_match_score s (fts ! j) \<le> find_best_match_score s (fts ! i)) \<and>
        (\<forall>j<i. \<not> ft_used (fts ! j) \<longrightarrow>
           find_best_match_score s (fts ! j) < find_best_match_score s (fts ! i))) \<or>
   (find_best_match s fts = (None, - 1, 0) \<and>
      (\<forall>j<length fts. \<not> ft_used (fts ! j) \<longrightarrow> find_best_match_score s (fts ! j) < 40))"
proof -
  have "(0::rat) < 40" by simp
  from select_best_cases[OF this, of fts "\<lambda>idx ft. ft_used ft" "find_best_match_score s"]
  show ?thesis
  proof (elim disjE exE conjE)
    fix i
    assume "select_best (\<lambda>idx ft. ft_used ft) (find_best_match_score s) 40 fts =
              Some (i, fts ! i, find_best_match_score s (fts ! i))"
    then have "find_best_match s fts = (Some (fts ! i), int i, find_best_match_score s (fts ! i))"
      by (simp add: find_best_match_def)
    moreover assume "i < length fts" "\<not> ft_used (fts ! i)" "40 \<le> find_best_match_score s (fts ! i)"
      "\<forall>j<length fts. \<not> ft_used (fts ! j) \<longrightarrow>
           find_best_match_score s (fts ! j) \<le> find_best_match_score s (fts ! i)"
      "\<forall>j<i. \<not> ft_used (fts ! j) \<longrightarrow>
           find_best_match_score s (fts ! j) < find_best_match_score s (fts ! i)"
    ultimately show ?thesis by blast
  next
    assume "select_best (\<lambda>idx ft. ft_used ft) (find_best_match_score s) 40 fts = None"
    then have "find_best_match s fts = (None, - 1, 0)" by (simp add: find_best_match_def)
    moreover assume "\<forall>j<length fts. \<not> ft_used (fts ! j) \<longrightarrow> find_best_match_score s (fts ! j) < 40"
    ultimately show ?thesis by blast
  qed
qed

lemma matched_refs_snoc:
  "matched_refs (matched @ [e]) =
     matched_refs matched @ (case m_full_text e of None \<Rightarrow> [] | Some (i, ft) \<Rightarrow> [i])"
  by (auto simp: matched_refs_def List.map_filter_def split: option.splits)

lemma matched_refs_mem:
  "r \<in> set (matched_refs matched) \<Longrightarrow> \<exists>e\<in>set matched. \<exists>ft. m_full_text e = Some (r, ft)"
  by (fastforce simp: matched_refs_def List.map_filter_def)

lemma py_index_in_range: "i < length xs \<Longrightarrow> py_index xs (int i) = Inr i"
  by (simp add: py_index_def)

lemma entry_ok_update:
  assumes "entry_ok fts e" "i < length fts" "\<not> ft_used (fts ! i)"
  shows "entry_ok (fts[i := v]) e"
proof (cases "m_full_text e")
  case None
  then show ?thesis using assms by (simp add: entry_ok_def)
next
  case (Some p)
  obtain r ft where p: "p = (r, ft)" by (cases p)
  have h: "r < length fts" "fts ! r = ft" "ft_used ft" "40 \<le> m_score e"
    using assms(1) Some p by (auto simp: entry_ok_def)
  then have "r \<noteq> i" using assms(3) by auto
  then show ?thesis using h Some p by (simp add: entry_ok_def)
qed

lemma match_all_loop_inv:
  assumes "\<forall>e\<in>set matched. entry_ok fts e" and "distinct (matched_refs matched)"
  shows "\<exists>m f. match_all_loop ss fts matched = Inr (m, f) \<and> length f = length fts \<and>
           (\<forall>e\<in>set m. entry_ok f e) \<and> distinct (matched_refs m) \<and>
           map m_summary m = map m_summary matched @ ss \<and>
           (\<forall>j<length fts. ft_used (fts ! j) \<longrightarrow> ft_used (f ! j))"
  using assms
proof (induction ss arbitrary: fts matched)
  case Nil
  then show ?case by simp
next
  case (Cons s ss)
  let ?sc = "find_best_match_score s"
  from find_best_match_cases[of fts s] show ?case
  proof (elim disjE exE conjE)
    fix i
    assume i: "i < length fts" "\<not> ft_used (fts ! i)" "40 \<le> ?sc (fts ! i)"
      and fb: "find_best_match s fts = (Some (fts ! i), int i, ?sc (fts ! i))"
    let ?v = "(fts ! i)\<lparr>ft_used := True\<rparr>"
    let ?fts = "fts[i := ?v]"
    let ?e = "\<lparr>m_summary = s, m_full_text = Some (i, ?v), m_score = ?sc (fts ! i)\<rparr>"
    have step: "match_all_loop (s # ss) fts matched = match_all_loop ss ?fts (matched @ [?e])"
      using fb i(1) by (simp add: py_index_in_range)
    have ok_new: "entry_ok ?fts ?e" using i by (simp add: entry_ok_def)
    have ok_old: "\<forall>e\<in>set matched. entry_ok ?fts e"
      using Cons.prems(1) i entry_ok_update by blast
    have "i \<notin> set (matched_refs matched)"
    proof
      assume "i \<in> set (matched_refs matched)"
      then obtain e ft where "e \<in> set matched" "m_full_text e = Some (i, ft)"
        using matched_refs_mem by blast
      then have "ft_used (fts ! i)" using Cons.prems(1) by (auto simp: entry_ok_def)
      then show False using i(2) by simp
    qed
    then have dist: "distinct (matched_refs (matched @ [?e]))"
      using Cons.prems(2) by (simp add: matched_refs_snoc)
    have "\<forall>e\<in>set (matched @ [?e]). entry_ok ?fts e" using ok_new ok_old by simp
    from Cons.IH[OF this dist] obtain m f where
      r: "match_all_loop ss ?fts (matched @ [?e]) = Inr (m, f)" "length f = length ?fts"
        "\<forall>e\<in>set m. entry_ok f e" "distinct (matched_refs m)"
        "map m_summary m = map m_summary (matched @ [?e]) @ ss"
        "\<forall>j<length ?fts. ft_used (?fts ! j) \<longrightarrow> ft_used (f ! j)"
      by blast
    have "\<forall>j<length fts. ft_used (fts ! j) \<longrightarrow> ft_used (f ! j)"
    proof (intro allI impI)
      fix j assume j: "j < length fts" "ft_used (fts ! j)"
      then have "ft_used (?fts ! j)" by (cases "j = i") simp_all
      then show "ft_used (f ! j)" using r(6) j(1) by simp
    qed
    then show ?thesis using r step by simp
  next
    assume fb: "find_best_match s fts = (None, - 1, 0)"
    let ?e = "\<lparr>m_summary = s, m_full_text = None, m_score = 0\<rparr>"
    have step: "match_all_loop (s # ss) fts matched = match_all_loop ss fts (matched @ [?e])"
      using fb by simp
    have "\<forall>e\<in>set (matched @ [?e]). entry_ok fts e"
      using Cons.prems(1) by (simp add: entry_ok_def)
    moreover have "distinct (matched_refs (matched @ [?e]))"
      using Cons.prems(2) by (simp add: matched_refs_snoc)
    ultimately obtain m f where
      r: "match_all_loop ss fts (matched @ [?e]) = Inr (m, f)" "length f = length fts"
        "\<forall>e\<in>set m. entry_ok f e" "distinct (matched_refs m)"
        "map m_summary m = map m_summary (matched @ [?e]) @ ss"
        "\<forall>j<length fts. ft_used (fts ! j) \<longrightarrow> ft_used (f ! j)"
      using Cons.IH by blast
    then show ?thesis using step by simp
  qed
qed

lemma match_all_loop_append:
  "match_all_loop (xs @ ys) fts m =
     (case match_all_loop xs fts m of Inl e \<Rightarrow> Inl e | Inr (m1, f1) \<Rightarrow> match_all_loop ys f1 m1)"
  by (induction xs arbitrary: fts m) (auto split: prod.splits option.splits sum.splits)

lemma match_all_loop_prefix:
  "match_all_loop ss fts m = Inr (m', f') \<Longrightarrow> take (length m) m' = m \<and> length m' = length m + length ss"
proof (induction ss arbitrary: fts m)
  case Nil
  then show ?case by simp
next
  case (Cons s ss)
  from Cons.prems obtain fts2 e where "match_all_loop ss fts2 (m @ [e]) = Inr (m', f')"
    by (auto split: prod.splits option.splits sum.splits)
  from Cons.IH[OF this] have t: "take (Suc (length m)) m' = m @ [e]" and l: "length m' = Suc (length m) + length ss"
    by simp_all
  have "take (length m) m' = take (length m) (take (Suc (length m)) m')" by simp
  also have "\<dots> = m" unfolding t by simp
  finally show ?case using l by simp
qed

lemma match_all_loop_first:
  assumes "find_best_match s fts = (None, - 1, 0)"
    and "match_all_loop (s # ss) fts m = Inr (m', f')"
  shows "m' ! length m = \<lparr>m_summary = s, m_full_text = None, m_score = 0\<rparr>"
proof -
  let ?e = "\<lparr>m_summary = s, m_full_text = None, m_score = 0\<rparr>"
  have "match_all_loop ss fts (m @ [?e]) = Inr (m', f')" using assms by simp
  from match_all_loop_prefix[OF this] have "take (Suc (length m)) m' = m @ [?e]" "length m < length m'"
    by simp_all
  then have "m' ! length m = (m @ [?e]) ! length m"
    by (metis lessI nth_take)
  then show ?thesis by simp
qed

lemma quote_section_infix:
  "k < length ms \<Longrightarrow> \<exists>pre post. quote_section ms cur = pre @ quote_entry_html (ms ! k) @ post"
proof (induction ms arbitrary: k cur)
  case Nil
  then show ?case by simp
next
  case (Cons e ms)
  show ?case
  proof (cases k)
    case 0
    have "quote_section (e # ms) cur =
        (if s_sefer (m_summary e) \<noteq> cur then sefer_header_html (s_sefer (m_summary e)) else []) @
        quote_entry_html e @ quote_section ms (s_sefer (m_summary e))"
      by (simp add: Let_def)
    then show ?thesis using 0 by auto
  next
    case (Suc k')
    then have "k' < length ms" using Cons.prems by simp
    from Cons.IH[OF this, of "s_sefer (m_summary e)"] obtain pre post where
      "quote_section ms (s_sefer (m_summary e)) = pre @ quote_entry_html (ms ! k') @ post" by blast
    then have "quote_section (e # ms) cur =
        ((if s_sefer (m_summary e) \<noteq> cur then sefer_header_html (s_sefer (m_summary e)) else []) @
        quote_entry_html e @ pre) @ quote_entry_html ((e # ms) ! k) @ post"
      using Suc by (simp add: Let_def)
    then show ?thesis by blast
  qed
qed

lemma generate_html_infix:
  assumes "k < length ms"
  shows "\<exists>pre post. generate_html ms = pre @ quote_entry_html (ms ! k) @ post"
proof -
  from quote_section_infix[OF assms, of None] obtain pre post where
    "quote_section ms None = pre @ quote_entry_html (ms ! k) @ post" by blast
  then have "generate_html ms =
      (html_head @ summary_section ms None @ html_middle @ pre) @ quote_entry_html (ms ! k) @ (post @ html_tail)"
    by (simp add: generate_html_def)
  then show ?thesis by blast
qed

lemma match_all_total:
  "\<exists>m f. match_all ss fts = Inr (m, f) \<and> length f = length fts \<and>
           (\<forall>e\<in>set m. entry_ok f e) \<and> distinct (matched_refs m) \<and> map m_summary m = ss \<and>
           (\<forall>j<length fts. ft_used (fts ! j) \<longrightarrow> ft_used (f ! j))"
  using match_all_loop_inv[of "[]" fts ss] by (simp add: match_all_def matched_refs_def List.map_filter_def)

lemma matched_refs_memI:
  "e \<in> set matched \<Longrightarrow> m_full_text e = Some (r, ft) \<Longrightarrow> r \<in> set (matched_refs matched)"
  by (force simp: matched_refs_def List.map_filter_def)

lemma distinct_refs_nth:
  "distinct (matched_refs m) \<Longrightarrow> a < b \<Longrightarrow> b < length m \<Longrightarrow>
   m_full_text (m ! a) = Some (i, f) \<Longrightarrow> m_full_text (m ! b) = Some (j, g) \<Longrightarrow> i \<noteq> j"
proof (induction m rule: rev_induct)
  case Nil
  then show ?case by simp
next
  case (snoc e m)
  show ?case
  proof (cases "b < length m")
    case True
    then have "(m @ [e]) ! a = m ! a" "(m @ [e]) ! b = m ! b" using snoc.prems(2) by (simp_all add: nth_append)
    moreover have "distinct (matched_refs m)" using snoc.prems(1) by (simp add: matched_refs_snoc)
    ultimately show ?thesis using snoc.IH snoc.prems True by simp
  next
    case False
    then have b: "b = length m" using snoc.prems(3) by simp
    then have e: "m_full_text e = Some (j, g)" using snoc.prems(5) by simp
    have a: "a < length m" using snoc.prems(2) b by simp
    then have "m ! a \<in> set m" "m_full_text (m ! a) = Some (i, f)"
      using snoc.prems(4) by (simp_all add: nth_append)
    then have "i \<in> set (matched_refs m)" by (rule matched_refs_memI)
    moreover have "j \<notin> set (matched_refs m)" using snoc.prems(1) e by (simp add: matched_refs_snoc)
    ultimately show ?thesis by blast
  qed
qed

section \<open>The matchers of versions 8 and 7\<close>

lemma best_full_text_cases:
  "(\<exists>i. i < length fts \<and> i \<notin> used \<and> 25 / 100 \<le> total_score s (fts ! i) \<and>
        best_full_text s fts used = Some (i, fts ! i, total_score s (fts ! i)) \<and>
        (\<forall>j<length fts. j \<notin> used \<longrightarrow> total_score s (fts ! j) \<le> total_score s (fts ! i)) \<and>
        (\<forall>j<i. j \<notin> used \<longrightarrow> total_score s (fts ! j) < total_score s (fts ! i))) \<or>
   (best_full_text s fts used = None \<and>
      (\<forall>j<length fts. j \<notin> used \<longrightarrow> total_score s (fts ! j) < 25 / 100))"
proof -
  have "(0::rat) < 25 / 100" by simp
  from select_best_cases[OF this, of fts "\<lambda>idx ft. idx \<in> used" "total_score s"]
  show ?thesis unfolding best_full_text_def by simp
qed

lemma match_summaries_loop_inv:
  assumes "set (matched_refs matched) \<subseteq> used" and "distinct (matched_refs matched)"
  shows "distinct (matched_refs (match_summaries_loop ss fts used matched)) \<and>
         map m_summary (match_summaries_loop ss fts used matched) = map m_summary matched @ ss"
  using assms
proof (induction ss arbitrary: used matched)
  case Nil
  then show ?case by simp
next
  case (Cons s ss)
  from best_full_text_cases[of fts used s] show ?case
  proof (elim disjE exE conjE)
    fix i
    assume i: "i \<notin> used" and b: "best_full_text s fts used = Some (i, fts ! i, total_score s (fts ! i))"
    let ?e = "\<lparr>m_summary = s, m_full_text = Some (i, fts ! i), m_score = total_score s (fts ! i)\<rparr>"
    have "set (matched_refs (matched @ [?e])) \<subseteq> insert i used"
      using Cons.prems(1) by (auto simp: matched_refs_snoc)
    moreover have "distinct (matched_refs (matched @ [?e]))"
      using Cons.prems i by (auto simp: matched_refs_snoc)
    ultimately show ?thesis using Cons.IH[of "matched @ [?e]" "insert i used"] b by simp
  next
    assume b: "best_full_text s fts used = None"
    let ?e = "\<lparr>m_summary = s, m_full_text = None, m_score = 0\<rparr>"
    have "set (matched_refs (matched @ [?e])) \<subseteq> used" "distinct (matched_refs (matched @ [?e]))"
      using Cons.prems by (simp_all add: matched_refs_snoc)
    then show ?thesis using Cons.IH[of "matched @ [?e]" used] b by simp
  qed
qed


section \<open>Normalisation is idempotent\<close>


lemma collapse_ws_hd:
  "collapse_ws xs = [] \<longleftrightarrow> xs = []"
  by (cases xs) auto

lemma collapse_ws_hd_space:
  "xs \<noteq> [] \<Longrightarrow> \<not> is_space (hd xs) \<Longrightarrow> hd (collapse_ws xs) = hd xs"
  by (cases xs) auto

lemma single_spaced_Cons:
  "single_spaced (c # cs) \<longleftrightarrow> (is_space c \<longrightarrow> c = 32 \<and> (cs \<noteq> [] \<longrightarrow> \<not> is_space (hd cs))) \<and> single_spaced cs"
  by (cases cs) auto

lemma dropWhile_hd: "dropWhile P xs \<noteq> [] \<Longrightarrow> \<not> P (hd (dropWhile P xs))"
  by (simp add: hd_dropWhile)

lemma dropWhile_hd_id: "xs \<noteq> [] \<Longrightarrow> \<not> P (hd xs) \<Longrightarrow> dropWhile P xs = xs"
  by (cases xs) auto

lemma single_spaced_collapse: "single_spaced (collapse_ws xs)"
proof (induction xs rule: collapse_ws.induct)
  case 1
  show ?case by simp
next
  case (2 c cs)
  show ?case
  proof (cases "is_space c")
    case True
    let ?r = "dropWhile is_space cs"
    have "single_spaced (collapse_ws ?r)" using 2 True by simp
    moreover have "collapse_ws ?r \<noteq> [] \<longrightarrow> \<not> is_space (hd (collapse_ws ?r))"
      using collapse_ws_hd[of ?r] collapse_ws_hd_space[of ?r] dropWhile_hd[of is_space cs] by auto
    ultimately show ?thesis using True by (simp add: single_spaced_Cons)
  next
    case False
    then show ?thesis using 2 by (simp add: single_spaced_Cons)
  qed
qed

lemma collapse_single_spaced: "single_spaced xs \<Longrightarrow> collapse_ws xs = xs"
proof (induction xs rule: collapse_ws.induct)
  case 1
  show ?case by simp
next
  case (2 c cs)
  show ?case
  proof (cases "is_space c")
    case True
    then have c: "c = 32" and h: "cs \<noteq> [] \<longrightarrow> \<not> is_space (hd cs)" and s: "single_spaced cs"
      using 2(3) by (auto simp: single_spaced_Cons)
    have "dropWhile is_space cs = cs" using h by (cases cs) auto
    then show ?thesis using 2(1) True c s by simp
  next
    case False
    then show ?thesis using 2 by (simp add: single_spaced_Cons)
  qed
qed

lemma single_spaced_append:
  "single_spaced (xs @ ys) \<Longrightarrow> single_spaced xs \<and> single_spaced ys"
proof (induction xs)
  case Nil
  then show ?case by simp
next
  case (Cons x xs)
  then show ?case by (cases xs) (auto simp: single_spaced_Cons)
qed

lemma strip_infix: "\<exists>a b. s = a @ strip s @ b"
proof -
  let ?d = "dropWhile is_space s"
  have "s = takeWhile is_space s @ ?d" by simp
  moreover have "rev ?d = takeWhile is_space (rev ?d) @ dropWhile is_space (rev ?d)" by simp
  then have "?d = strip s @ rev (takeWhile is_space (rev ?d))"
    unfolding strip_def by (metis rev_append rev_rev_ident)
  ultimately show ?thesis by metis
qed

lemma single_spaced_strip: "single_spaced s \<Longrightarrow> single_spaced (strip s)"
  using strip_infix[of s] single_spaced_append by metis

lemma set_strip: "set (strip s) \<subseteq> set s"
  using strip_infix[of s] by (metis Un_iff set_append subsetI)

lemma strip_hd: "strip s \<noteq> [] \<Longrightarrow> \<not> is_space (hd (strip s))"
proof -
  assume ne: "strip s \<noteq> []"
  let ?d = "dropWhile is_space s"
  have dne: "?d \<noteq> []"
  proof
    assume e: "?d = []"
    have "strip s = rev (dropWhile is_space (rev ?d))" by (simp only: strip_def)
    then have "strip s = []" unfolding e by simp
    with ne show False by simp
  qed
  obtain b where b: "?d = strip s @ b"
    by (metis strip_def append_take_drop_id rev_append rev_rev_ident takeWhile_dropWhile_id)
  then have "hd ?d = hd (strip s)" using ne by (metis hd_append2)
  then show ?thesis using dropWhile_hd[of is_space s] dne by simp
qed

lemma strip_last: "strip s \<noteq> [] \<Longrightarrow> \<not> is_space (last (strip s))"
proof -
  assume ne: "strip s \<noteq> []"
  let ?e = "dropWhile is_space (rev (dropWhile is_space s))"
  have "?e \<noteq> []" using ne by (simp add: strip_def)
  then have "\<not> is_space (hd ?e)" by (rule dropWhile_hd)
  then show ?thesis using ne by (simp add: strip_def last_rev)
qed

lemma strip_fixed:
  "(s \<noteq> [] \<longrightarrow> \<not> is_space (hd s) \<and> \<not> is_space (last s)) \<Longrightarrow> strip s = s"
proof (cases "s = []")
  case True
  then show ?thesis by (simp add: strip_def)
next
  case False
  assume "s \<noteq> [] \<longrightarrow> \<not> is_space (hd s) \<and> \<not> is_space (last s)"
  then have h: "\<not> is_space (hd s)" and l: "\<not> is_space (last s)" using False by auto
  have 1: "dropWhile is_space s = s" using h False by (simp add: dropWhile_hd_id)
  have "rev s \<noteq> []" using False by simp
  moreover have "hd (rev s) = last s" using False by (simp add: hd_rev)
  ultimately have 2: "dropWhile is_space (rev s) = rev s" using l by (simp add: dropWhile_hd_id)
  show ?thesis by (simp add: strip_def 1 2)
qed


lemma normalize_text_single_spaced: "single_spaced (normalize_text s)"
  unfolding normalize_text_def Let_def by (intro single_spaced_strip single_spaced_collapse)

lemma set_collapse_ws: "set (collapse_ws xs) \<subseteq> insert 32 (set xs)"
proof (induction xs rule: collapse_ws.induct)
  case 1
  show ?case by simp
next
  case (2 c cs)
  have "set (dropWhile is_space cs) \<subseteq> set cs" by (rule set_dropWhileD[THEN subsetI]) 
  then show ?case using 2 by (cases "is_space c") auto
qed

lemma normalize_text_chars:
  assumes "c \<in> set (normalize_text s)"
  shows "\<not> is_nikud c \<and> \<not> is_punct c"
proof -
  let ?t1 = "filter (\<lambda>c. \<not> is_nikud c) s"
  let ?t2 = "map (\<lambda>c. if is_punct c then 32 else c) ?t1"
  have "c \<in> set (collapse_ws ?t2)"
    using assms set_strip unfolding normalize_text_def Let_def by blast
  then have "c = 32 \<or> c \<in> set ?t2" using set_collapse_ws by blast
  moreover have "\<not> is_nikud 32" "\<not> is_punct 32" by (simp_all add: is_nikud_def is_punct_def)
  moreover have "\<And>d. d \<in> set ?t2 \<Longrightarrow> \<not> is_nikud d \<and> \<not> is_punct d"
    by (auto simp: is_nikud_def is_punct_def split: if_splits)
  ultimately show ?thesis by blast
qed

lemma normalize_text_fixed:
  assumes ss: "single_spaced t"
    and ch: "\<forall>c\<in>set t. \<not> is_nikud c \<and> \<not> is_punct c"
    and ends: "t \<noteq> [] \<longrightarrow> \<not> is_space (hd t) \<and> \<not> is_space (last t)"
  shows "normalize_text t = t"
proof -
  have 1: "filter (\<lambda>c. \<not> is_nikud c) t = t" using ch by (simp add: filter_id_conv)
  have 2: "map (\<lambda>c. if is_punct c then 32 else c) t = t" using ch by (simp add: map_idI)
  show ?thesis
    unfolding normalize_text_def Let_def 1 2
    using collapse_single_spaced[OF ss] strip_fixed[OF ends] by simp
qed

lemma single_spaced_nth:
  "single_spaced t \<Longrightarrow> Suc i < length t \<Longrightarrow> \<not> (is_space (t ! i) \<and> is_space (t ! Suc i))"
proof (induction t arbitrary: i rule: single_spaced.induct)
  case 1
  then show ?case by simp
next
  case (2 c)
  then show ?case by simp
next
  case (3 c d cs)
  then show ?case by (cases i) auto
qed

section \<open>parse\_summaries\_to\_content: the mapping\<close>




lemma author_sections_mem:
  assumes "sa \<in> set (author_sections ratio content_sections summary)"
  shows "fst sa \<in> set content_sections \<and>
         snd sa = similarity_score ratio (cs_author (fst sa)) (sm_author summary) \<and> 7 / 10 < snd sa"
  using assms by (auto simp: author_sections_def)

lemma map_summary_cases:
  "map_summary ratio content_sections summary = summary \<or>
   (\<exists>sa\<in>set (author_sections ratio content_sections summary).
      25 / 100 < section_score ratio summary sa \<and>
      map_summary ratio content_sections summary =
        summary\<lparr>sm_matched_content := Some (fst sa), sm_match_confidence := section_score ratio summary sa\<rparr>)"
proof -
  let ?xs = "author_sections ratio content_sections summary"
  let ?r = "scan_best (\<lambda>idx sa. False) (section_score ratio summary) 0 ?xs (None, 0)"
  note inv = scan_best_inv[where skip = "\<lambda>idx sa. False" and score = "section_score ratio summary"
      and xs = ?xs and ?s0.0 = 0]
  obtain b sc where r: "?r = (b, sc)" by (cases ?r)
  show ?thesis
  proof (cases b)
    case None
    then show ?thesis by (simp add: map_summary_def r Let_def)
  next
    case (Some p)
    obtain i sa where p: "p = (i, sa)" by (cases p)
    obtain sec sim where sa: "sa = (sec, sim)" by (cases sa)
    have h: "i < length ?xs" "sa = ?xs ! i" "sc = section_score ratio summary sa"
      using inv r Some p by auto
    then have mem: "sa \<in> set ?xs" by simp
    show ?thesis
    proof (cases "25 / 100 < sc")
      case True
      have "?xs \<noteq> []" using mem by auto
      then have "map_summary ratio content_sections summary =
          summary\<lparr>sm_matched_content := Some (fst sa), sm_match_confidence := section_score ratio summary sa\<rparr>"
        using True h(3) by (simp add: map_summary_def r Some p sa Let_def)
      then show ?thesis using mem True h(3) by blast
    next
      case False
      then show ?thesis by (simp add: map_summary_def r Some p sa Let_def)
    qed
  qed
qed

section \<open>The OCR retry loops\<close>











section \<open>Examples, evaluated\<close>

lemma ex_lengths: "length ex_filler = 50" "length ex_body = 51" "length ex_body8 = 105"
  by (simp_all add: ex_filler_def ex_body_def ex_body8_def)

text \<open>
  The passages of the examples are passages that \<open>extract_all_full_texts\<close> builds: the clean
  text is the text without its tags and is longer than 50 characters, and the keywords
  are the words of three letters or more of the clean text.
\<close>

lemma ex_passage_extracted:
  "strip_tags (ft_text (ex_passage ex_body u)) = ft_text_clean (ex_passage ex_body u)"
  "50 < length (ft_text_clean (ex_passage ex_body u))"
  "get_hebrew_words (take 800 (ft_text_clean (ex_passage ex_body u))) =
     set (ft_keywords (ex_passage ex_body u))"
  by (simp_all add: ex_passage_def ex_verse_def ex_body_def ex_filler_def asc_def get_hebrew_words_def
      is_hebrew_def Let_def)

lemma ex_other_passage_extracted:
  "strip_tags (ft_text ex_other_passage) = ft_text_clean ex_other_passage"
  "50 < length (ft_text_clean ex_other_passage)"
  "get_hebrew_words (take 800 (ft_text_clean ex_other_passage)) = set (ft_keywords ex_other_passage)"
  by (simp_all add: ex_other_passage_def ex_body_def ex_filler_def asc_def get_hebrew_words_def
      is_hebrew_def Let_def)

lemma ex_kw_passage_extracted:
  "strip_tags (ft_text ex_kw_passage) = ft_text_clean ex_kw_passage"
  "50 < length (ft_text_clean ex_kw_passage)"
  "get_hebrew_words (take 800 (ft_text_clean ex_kw_passage)) = set (ft_keywords ex_kw_passage)"
  by (simp_all add: ex_kw_passage_def ex_body_def ex_filler_def asc_def get_hebrew_words_def
      is_hebrew_def Let_def)

lemma ex_passage8_extracted:
  "strip_tags (ft_text (ex_passage8 ex_body8)) = ft_text_clean (ex_passage8 ex_body8)"
  "100 < length (ft_text_clean (ex_passage8 ex_body8))"
  "set (hebrew_runs 2 (take 1000 (ft_text_clean (ex_passage8 ex_body8)))) =
     set (ft_keywords (ex_passage8 ex_body8))"
  by (auto simp: ex_passage8_def ex_passage_def ex_verse_def ex_body8_def ex_filler_def asc_def
      is_hebrew_def Let_def)

lemma ex_score: "find_best_match_score (ex_summary n) (ex_passage body u) = 100"
  by (simp add: find_best_match_score_def ex_summary_def ex_passage_def Let_def is_hebrew_def)

lemma ex_other_score: "find_best_match_score (ex_summary n) ex_other_passage = 0"
  by (simp add: find_best_match_score_def ex_summary_def ex_other_passage_def ex_verse_def Let_def
      is_hebrew_def verse_norm_def is_space_def)

lemma ex_used: "(ex_passage b False)\<lparr>ft_used := True\<rparr> = ex_passage b True"
  by (simp add: ex_passage_def)

lemma ex_flags: "ft_used (ex_passage b u) = u" "ft_used ex_other_passage = False"
  by (simp_all add: ex_passage_def ex_other_passage_def)

lemma ex_find0:
  "find_best_match (ex_summary n) [ex_passage b0 False, ex_passage b1 False, ex_other_passage] =
     (Some (ex_passage b0 False), 0, 100)"
  by (simp add: find_best_match_def select_best_def scan_step_def ex_score ex_other_score ex_flags)

lemma ex_find1:
  "find_best_match (ex_summary n) [ex_passage b0 True, ex_passage b1 False, ex_other_passage] =
     (Some (ex_passage b1 False), 1, 100)"
  by (simp add: find_best_match_def select_best_def scan_step_def ex_score ex_other_score ex_flags)

lemma ex_find2:
  "find_best_match (ex_summary n) [ex_passage b0 True, ex_passage b1 True, ex_other_passage] =
     (None, - 1, 0)"
  by (simp add: find_best_match_def select_best_def scan_step_def ex_score ex_other_score ex_flags)

lemma ex_match_two:
  "match_all [ex_summary 1, ex_summary 2] [ex_passage b0 False, ex_passage b1 False, ex_other_passage] =
     Inr ([\<lparr>m_summary = ex_summary 1, m_full_text = Some (0, ex_passage b0 True), m_score = 100\<rparr>,
           \<lparr>m_summary = ex_summary 2, m_full_text = Some (1, ex_passage b1 True), m_score = 100\<rparr>],
          [ex_passage b0 True, ex_passage b1 True, ex_other_passage])"
  by (simp add: match_all_def ex_find0 ex_find1 py_index_def ex_used)

lemma ex_match_all:
  "match_all [ex_summary 1, ex_summary 2, ex_summary 3]
       [ex_passage b0 False, ex_passage b1 False, ex_other_passage] =
     Inr ([\<lparr>m_summary = ex_summary 1, m_full_text = Some (0, ex_passage b0 True), m_score = 100\<rparr>,
           \<lparr>m_summary = ex_summary 2, m_full_text = Some (1, ex_passage b1 True), m_score = 100\<rparr>,
           \<lparr>m_summary = ex_summary 3, m_full_text = None, m_score = 0\<rparr>],
          [ex_passage b0 True, ex_passage b1 True, ex_other_passage])"
  by (simp add: match_all_def ex_find0 ex_find1 ex_find2 py_index_def ex_used)

lemma ex_score8: "total_score (ex_summary8 n) (ex_passage8 body) = 12 / 10"
  by (simp add: total_score_def content_match_score_def ex_summary8_def ex_passage8_def ex_summary_def
      ex_passage_def ex_verse_def normalize_v8_def strip_def is_space_def is_hebrew_def Let_def)

lemma ex_best8_0:
  "best_full_text (ex_summary8 n) [ex_passage8 b0, ex_passage8 b1] {} =
     Some (0, ex_passage8 b0, 12 / 10)"
  by (simp add: best_full_text_def select_best_def scan_step_def ex_score8)

lemma ex_best8_1:
  "best_full_text (ex_summary8 n) [ex_passage8 b0, ex_passage8 b1] {0} =
     Some (1, ex_passage8 b1, 12 / 10)"
  by (simp add: best_full_text_def select_best_def scan_step_def ex_score8)

lemma ex_best8_2:
  "best_full_text (ex_summary8 n) [ex_passage8 b0, ex_passage8 b1] {Suc 0, 0} = None"
  by (simp add: best_full_text_def select_best_def scan_step_def ex_score8)

lemma ex_match8:
  "match_summaries_to_full_texts [ex_summary8 1, ex_summary8 2, ex_summary8 3]
       [ex_passage8 b0, ex_passage8 b1] =
     [\<lparr>m_summary = ex_summary8 1, m_full_text = Some (0, ex_passage8 b0), m_score = 12 / 10\<rparr>,
      \<lparr>m_summary = ex_summary8 2, m_full_text = Some (1, ex_passage8 b1), m_score = 12 / 10\<rparr>,
      \<lparr>m_summary = ex_summary8 3, m_full_text = None, m_score = 0\<rparr>]"
  by (simp add: match_summaries_to_full_texts_def ex_best8_0 ex_best8_1 ex_best8_2)

lemma ex_score7:
  "match_summary_to_fulltext_score (normalize_v7 [1488]) (normalize_v7 (s_verse (ex_summary n)))
     (normalize_v7 (s_summary (ex_summary n))) (ex_passage body u) = 100"
  by (simp add: match_summary_to_fulltext_score_def ex_summary_def ex_passage_def ex_verse_def
      normalize_v7_def strip_def is_space_def is_hebrew_def Let_def)


lemma ex_kw_runs:
  "hebrew_runs 4 (s_summary (ex_kw_summary ks)) =
     [[1488, 1489, 1490, 1491], [1492, 1493, 1494, 1495], [1496, 1497, 1499, 1500],
      [1496, 1497, 1499, 1500]]"
  by (simp add: ex_kw_summary_def is_hebrew_def Let_def)

lemma ex_kw_score: "find_best_match_score (ex_kw_summary ex_words) ex_kw_passage = 40"
  unfolding find_best_match_score_def Let_def ex_kw_runs
  by (simp add: ex_kw_summary_def ex_kw_passage_def ex_words_def ex_body_def ex_filler_def
      verse_norm_def is_space_def count_in_def)


lemma ex_kw_find:
  "find_best_match (ex_kw_summary ex_words) [ex_kw_passage] = (Some ex_kw_passage, 0, 40)"
  by (simp add: find_best_match_def select_best_def scan_step_def ex_kw_score)
     (simp add: ex_kw_passage_def)

lemma ex_kw_words: "get_hebrew_words (s_summary (ex_kw_summary ks)) = set ex_words"
  by (auto simp: get_hebrew_words_def ex_kw_summary_def ex_words_def is_hebrew_def Let_def)

lemma ex_norm: "normalize_text [1488] = [1488]" "normalize_text [1500] = [1500]"
  "normalize_text [1489, 1490, 1491] = [1489, 1490, 1491]"
  by (simp_all add: normalize_text_def strip_def is_nikud_def is_punct_def is_space_def)

lemma ex_cs_fields: "cs_author (ex_cs a) = a" "cs_page_number (ex_cs a) = [1497]"
  "cs_opening_phrases (ex_cs a) = [[1489, 1490, 1491]]"
  by (simp_all add: ex_cs_def)

text \<open>
  The summary and the sections of the examples pass the tests of the extraction: the
  text of the summary is longer than 10 characters, the stripped text of a section is
  longer than 50, and the bold phrase of the section is longer than 2.
\<close>

lemma ex_psc_extracted:
  "10 < length (sm_summary_text ex_sm)" "50 < length (strip (cs_text (ex_cs a)))"
  "\<forall>opening\<in>set (cs_opening_phrases (ex_cs a)). 2 < length opening"
  by (simp_all add: ex_sm_def ex_cs_def ex_body_def ex_filler_def asc_def strip_def is_space_def)

lemma ex_cs_text_norm:
  "normalize_text (cs_text (ex_cs a)) =
     asc ''<b>'' @ [1489, 1490, 1491] @ asc ''</b>'' @ ex_body @ [32] @
     asc ''<footer>'' @ [1497] @ asc ''</footer>''"
  by (simp add: ex_cs_def ex_body_def ex_filler_def asc_def normalize_text_def strip_def is_nikud_def
      is_punct_def is_space_def)


lemma ex_author_sections:
  "author_sections exact_match_ratio [ex_cs [1488], ex_cs [1500]] ex_sm = [(ex_cs [1488], 1)]"
  by (simp add: author_sections_def similarity_score_def exact_match_ratio_def ex_norm ex_cs_fields
      ex_sm_def)

lemma ex_section_score: "section_score exact_match_ratio ex_sm (ex_cs [1488], 1) = 115 / 100"
  unfolding section_score_def Let_def
  by (simp add: ex_sm_def ex_cs_fields ex_norm ex_cs_text_norm asc_def hebrew_page_to_int_def
      hebrew_nums_def)

lemma ex_map_summary:
  "map_summary exact_match_ratio [ex_cs [1488], ex_cs [1500]] ex_sm =
     ex_sm\<lparr>sm_matched_content := Some (ex_cs [1488]), sm_match_confidence := 115 / 100\<rparr>"
  by (simp add: map_summary_def ex_author_sections scan_step_def ex_section_score)





section \<open>The claims\<close>

subsection \<open>C1: exclusive matching\<close>

text \<open>
  C1. In a run of \<open>match_all\<close> (version 10) and in a run of
  \<open>match_summaries_to_full_texts\<close> (version 8), no two entries hold the same passage: a
  passage that an earlier summary was matched to is not the match of a later one.
\<close>

theorem greedy_exclusive_matching:
  "(\<exists>matched fts'. match_all summaries full_texts = Inr (matched, fts') \<and>
      (\<forall>a b i f j g. a < b \<and> b < length matched \<and>
          m_full_text (matched ! a) = Some (i, f) \<and> m_full_text (matched ! b) = Some (j, g)
          \<longrightarrow> i \<noteq> j)) \<and>
   (\<forall>a b i f j g. a < b \<and> b < length (match_summaries_to_full_texts summaries8 full_texts8) \<and>
      m_full_text (match_summaries_to_full_texts summaries8 full_texts8 ! a) = Some (i, f) \<and>
      m_full_text (match_summaries_to_full_texts summaries8 full_texts8 ! b) = Some (j, g)
      \<longrightarrow> i \<noteq> j)"
proof (intro conjI)
  from match_all_total[of summaries full_texts] obtain m f where
    r: "match_all summaries full_texts = Inr (m, f)" and d: "distinct (matched_refs m)"
    by blast
  have "\<forall>a b i f j g. a < b \<and> b < length m \<and>
          m_full_text (m ! a) = Some (i, f) \<and> m_full_text (m ! b) = Some (j, g) \<longrightarrow> i \<noteq> j"
    using distinct_refs_nth[OF d] by blast
  then show "\<exists>matched fts'. match_all summaries full_texts = Inr (matched, fts') \<and>
      (\<forall>a b i f j g. a < b \<and> b < length matched \<and>
          m_full_text (matched ! a) = Some (i, f) \<and> m_full_text (matched ! b) = Some (j, g)
          \<longrightarrow> i \<noteq> j)"
    using r by blast
next
  let ?m = "match_summaries_to_full_texts summaries8 full_texts8"
  have "distinct (matched_refs ?m)"
    using match_summaries_loop_inv[of "[]" "{}" summaries8 full_texts8]
    by (simp add: match_summaries_to_full_texts_def matched_refs_def List.map_filter_def)
  then show "\<forall>a b i f j g. a < b \<and> b < length ?m \<and>
      m_full_text (?m ! a) = Some (i, f) \<and> m_full_text (?m ! b) = Some (j, g) \<longrightarrow> i \<noteq> j"
    using distinct_refs_nth by blast
qed

theorem greedy_exclusive_matching_witness:
  "match_all [ex_summary 1, ex_summary 2] [ex_passage ex_body False, ex_passage ex_body False, ex_other_passage] =
     Inr ([\<lparr>m_summary = ex_summary 1, m_full_text = Some (0, ex_passage ex_body True), m_score = 100\<rparr>,
           \<lparr>m_summary = ex_summary 2, m_full_text = Some (1, ex_passage ex_body True), m_score = 100\<rparr>],
          [ex_passage ex_body True, ex_passage ex_body True, ex_other_passage]) \<and>
   match_summaries_to_full_texts [ex_summary8 1, ex_summary8 2, ex_summary8 3]
       [ex_passage8 ex_body8, ex_passage8 ex_body8] =
     [\<lparr>m_summary = ex_summary8 1, m_full_text = Some (0, ex_passage8 ex_body8), m_score = 12 / 10\<rparr>,
      \<lparr>m_summary = ex_summary8 2, m_full_text = Some (1, ex_passage8 ex_body8), m_score = 12 / 10\<rparr>,
      \<lparr>m_summary = ex_summary8 3, m_full_text = None, m_score = 0\<rparr>]"
  using greedy_exclusive_matching[of "[ex_summary 1, ex_summary 2]"
      "[ex_passage ex_body False, ex_passage ex_body False, ex_other_passage]"
      "[ex_summary8 1, ex_summary8 2, ex_summary8 3]" "[ex_passage8 ex_body8, ex_passage8 ex_body8]"]
  by (simp add: ex_match_two ex_match8)

subsection \<open>C2: the same-book restriction\<close>

text \<open>
  C2, as amended. In parse\_summaries\_to\_content a summary is paired only with a
  section whose author has a similarity above 0.7 to the summary's author; a summary
  that the run does not pair is left as it was.
\<close>

theorem same_author_restriction:
  assumes "map_summaries_to_content ratio summaries content_sections = Inr result"
    and "k < length summaries"
  shows "result ! k = summaries ! k \<or>
    (\<exists>section\<in>set content_sections. \<exists>confidence.
       7 / 10 < similarity_score ratio (cs_author section) (sm_author (summaries ! k)) \<and>
       result ! k = (summaries ! k)\<lparr>sm_matched_content := Some section,
                                       sm_match_confidence := confidence\<rparr>)"
proof -
  have "result = map (map_summary ratio content_sections) summaries"
    using assms(1) by (simp add: map_summaries_to_content_def split: if_splits)
  then have r: "result ! k = map_summary ratio content_sections (summaries ! k)"
    using assms(2) by simp
  from map_summary_cases[of ratio content_sections "summaries ! k"] show ?thesis
  proof
    assume "map_summary ratio content_sections (summaries ! k) = summaries ! k"
    then show ?thesis using r by simp
  next
    assume "\<exists>sa\<in>set (author_sections ratio content_sections (summaries ! k)).
      25 / 100 < section_score ratio (summaries ! k) sa \<and>
      map_summary ratio content_sections (summaries ! k) =
        (summaries ! k)\<lparr>sm_matched_content := Some (fst sa),
                         sm_match_confidence := section_score ratio (summaries ! k) sa\<rparr>"
    then obtain sa where sa: "sa \<in> set (author_sections ratio content_sections (summaries ! k))"
      and m: "map_summary ratio content_sections (summaries ! k) =
        (summaries ! k)\<lparr>sm_matched_content := Some (fst sa),
                         sm_match_confidence := section_score ratio (summaries ! k) sa\<rparr>"
      by blast
    from author_sections_mem[OF sa] have "fst sa \<in> set content_sections"
      "7 / 10 < similarity_score ratio (cs_author (fst sa)) (sm_author (summaries ! k))"
      by simp_all
    then have "\<exists>section\<in>set content_sections. \<exists>confidence.
       7 / 10 < similarity_score ratio (cs_author section) (sm_author (summaries ! k)) \<and>
       result ! k = (summaries ! k)\<lparr>sm_matched_content := Some section,
                                       sm_match_confidence := confidence\<rparr>"
      using r m by (intro bexI[of _ "fst sa"] exI[of _ "section_score ratio (summaries ! k) sa"]) simp_all
    then show ?thesis by (rule disjI2)
  qed
qed

theorem same_author_restriction_witness:
  "map_summaries_to_content exact_match_ratio [ex_sm] [ex_cs [1488], ex_cs [1500]] =
     Inr [ex_sm\<lparr>sm_matched_content := Some (ex_cs [1488]), sm_match_confidence := 115 / 100\<rparr>] \<and>
   similarity_score exact_match_ratio (cs_author (ex_cs [1488])) (sm_author ex_sm) = 1 \<and>
   similarity_score exact_match_ratio (cs_author (ex_cs [1500])) (sm_author ex_sm) = 0"
proof -
  have r: "map_summaries_to_content exact_match_ratio [ex_sm] [ex_cs [1488], ex_cs [1500]] =
     Inr [ex_sm\<lparr>sm_matched_content := Some (ex_cs [1488]), sm_match_confidence := 115 / 100\<rparr>]"
    by (simp add: map_summaries_to_content_def ex_map_summary)
  have k: "0 < length [ex_sm]" by simp
  from same_author_restriction[OF r k] show ?thesis
    using r by (simp add: similarity_score_def exact_match_ratio_def ex_norm ex_cs_fields ex_sm_def)
qed

text \<open>
  The claim as stated fails in versions 10 and 7: a summary of one book is matched to a
  passage of another book that has the same verse.
\<close>

theorem different_book_counterexample:
  "s_sefer (ex_summary 1) = Some [1488] \<and> ft_sefer (ex_passage ex_body False) = [1489] \<and>
   normalize_sefer [1488] = [1488] \<and> normalize_sefer [1489] = [1489] \<and>
   find_best_match (ex_summary 1) [ex_passage ex_body False] = (Some (ex_passage ex_body False), 0, 100) \<and>
   normalize_v7 [1488] = [1488] \<and> normalize_v7 [1489] = [1489] \<and>
   match_summary_to_fulltext (ex_summary 1) [ex_passage ex_body False] {} =
     Inr (Some (0, ex_passage ex_body False), {0})"
proof -
  have 1: "find_best_match (ex_summary 1) [ex_passage ex_body False] = (Some (ex_passage ex_body False), 0, 100)"
    by (simp add: find_best_match_def select_best_def scan_step_def ex_score ex_flags)
  have 2: "match_summary_to_fulltext (ex_summary 1) [ex_passage ex_body False] {} =
     Inr (Some (0, ex_passage ex_body False), {0})"
  proof -
    have "s_sefer (ex_summary 1) = Some [1488]" by (simp add: ex_summary_def)
    then show ?thesis
      by (simp add: match_summary_to_fulltext_def select_best_def scan_step_def ex_score7)
  qed
  have 3: "normalize_sefer [1488] = [1488]" "normalize_sefer [1489] = [1489]"
    by (simp_all add: normalize_sefer_def strip_def is_space_def Let_def)
  have 4: "normalize_v7 [1488] = [1488]" "normalize_v7 [1489] = [1489]"
    by (simp_all add: normalize_v7_def strip_def is_space_def)
  show ?thesis using 1 2 3 4 by (simp add: ex_summary_def ex_passage_def)
qed

subsection \<open>C3: candidate selection\<close>



subsection \<open>C4: summaries without a match\<close>

lemma find_best_match_none:
  assumes "\<forall>j<length fts. \<not> ft_used (fts ! j) \<longrightarrow> find_best_match_score s (fts ! j) < 40"
  shows "find_best_match s fts = (None, - 1, 0)"
  using find_best_match_cases[of fts s] assms by (metis not_le)

lemma quote_text_none: "m_full_text e = None \<Longrightarrow> quote_text e = no_match_text"
  by (simp add: quote_text_def)

text \<open>
  C4, as amended. When no unused passage scores at least 40 for a summary,
  \<open>find_best_match\<close> returns no passage; \<open>match_all\<close> does not raise and records the
  summary with no passage and the score 0; and the document of \<open>generate_html\<close> has the
  entry of that summary, with the placeholder as its text.
\<close>

theorem unmatched_summary_placeholder:
  assumes "match_all before full_texts = Inr (m1, fts1)"
    and "\<forall>j<length fts1. \<not> ft_used (fts1 ! j) \<longrightarrow> find_best_match_score s (fts1 ! j) < 40"
  shows "find_best_match s fts1 = (None, - 1, 0) \<and>
    (\<exists>matched fts'. match_all (before @ s # rest) full_texts = Inr (matched, fts') \<and>
       length before < length matched \<and>
       matched ! length before = \<lparr>m_summary = s, m_full_text = None, m_score = 0\<rparr> \<and>
       quote_text (matched ! length before) = no_match_text \<and>
       (\<exists>pre post. generate_html matched = pre @ quote_entry_html (matched ! length before) @ post))"
proof -
  have none: "find_best_match s fts1 = (None, - 1, 0)"
    using assms(2) by (rule find_best_match_none)
  from match_all_total[of before full_texts] assms(1) have
    ok: "\<forall>e\<in>set m1. entry_ok fts1 e" and d: "distinct (matched_refs m1)"
    and ms: "map m_summary m1 = before"
    by auto
  have len: "length m1 = length before" using ms by (metis length_map)
  from match_all_loop_inv[OF ok d, of "s # rest"] obtain m f where
    r: "match_all_loop (s # rest) fts1 m1 = Inr (m, f)" by blast
  have run: "match_all (before @ s # rest) full_texts = Inr (m, f)"
    using assms(1) r by (simp add: match_all_def match_all_loop_append)
  have at: "m ! length before = \<lparr>m_summary = s, m_full_text = None, m_score = 0\<rparr>"
    using match_all_loop_first[OF none r] len by simp
  have lt: "length before < length m"
    using match_all_loop_prefix[OF r] len by simp
  have "quote_text (m ! length before) = no_match_text"
    using at by (simp add: quote_text_none)
  moreover have "\<exists>pre post. generate_html m = pre @ quote_entry_html (m ! length before) @ post"
    using lt by (rule generate_html_infix)
  ultimately show ?thesis using none run at lt by blast
qed

theorem unmatched_summary_placeholder_witness:
  "match_all [ex_summary 1, ex_summary 2] [ex_passage ex_body False, ex_passage ex_body False, ex_other_passage] =
     Inr ([\<lparr>m_summary = ex_summary 1, m_full_text = Some (0, ex_passage ex_body True), m_score = 100\<rparr>,
           \<lparr>m_summary = ex_summary 2, m_full_text = Some (1, ex_passage ex_body True), m_score = 100\<rparr>],
          [ex_passage ex_body True, ex_passage ex_body True, ex_other_passage]) \<and>
   \<not> ft_used ex_other_passage \<and> find_best_match_score (ex_summary 3) ex_other_passage < 40 \<and>
   find_best_match (ex_summary 3) [ex_passage ex_body True, ex_passage ex_body True, ex_other_passage] =
     (None, - 1, 0) \<and>
   (\<exists>matched fts'.
      match_all ([ex_summary 1, ex_summary 2] @ ex_summary 3 # [])
        [ex_passage ex_body False, ex_passage ex_body False, ex_other_passage] = Inr (matched, fts') \<and>
      matched ! 2 = \<lparr>m_summary = ex_summary 3, m_full_text = None, m_score = 0\<rparr> \<and>
      quote_text (matched ! 2) = no_match_text \<and>
      (\<exists>pre post. generate_html matched = pre @ quote_entry_html (matched ! 2) @ post))"
proof -
  let ?fts1 = "[ex_passage ex_body True, ex_passage ex_body True, ex_other_passage]"
  have h2: "\<forall>j<length ?fts1. \<not> ft_used (?fts1 ! j) \<longrightarrow>
      find_best_match_score (ex_summary 3) (?fts1 ! j) < 40"
    by (simp add: ex_flags ex_other_score nth_Cons' All_less_Suc)
  from unmatched_summary_placeholder[OF ex_match_two h2, of "[]"]
  show ?thesis by (auto simp: ex_match_two ex_flags ex_other_score numeral_2_eq_2)
qed

text \<open>
  The claim as stated fails at the threshold: the only passage scores 30 + 10 = 40, which is
  not above 40, and it is matched.
\<close>

theorem unmatched_at_threshold_counterexample:
  "get_hebrew_words (s_summary (ex_kw_summary ex_words)) = set (s_keywords (ex_kw_summary ex_words)) \<and>
   \<not> ft_used ex_kw_passage \<and>
   \<not> 40 < find_best_match_score (ex_kw_summary ex_words) ex_kw_passage \<and>
   find_best_match (ex_kw_summary ex_words) [ex_kw_passage] = (Some ex_kw_passage, 0, 40)"
  by (simp add: ex_kw_words ex_kw_score ex_kw_find) (simp add: ex_kw_summary_def ex_kw_passage_def)

subsection \<open>C5: the range of the confidence score\<close>




subsection \<open>C6: bounded OCR retry\<close>



subsection \<open>C7: output truncation\<close>



lemma strip_tags_plain: "60 \<notin> set xs \<Longrightarrow> strip_tags xs = xs"
  by (induction xs) simp_all

lemma squeeze_newlines_plain: "10 \<notin> set xs \<Longrightarrow> squeeze_newlines xs = xs"
  by (induction xs) simp_all

lemma clean_html_plain:
  assumes "\<forall>c\<in>set xs. c \<noteq> 60 \<and> \<not> is_space c"
  shows "clean_html xs = xs"
proof -
  have "is_space 10" by (simp add: is_space_def)
  then have "10 \<notin> set xs" "60 \<notin> set xs" using assms by auto
  moreover have "xs \<noteq> [] \<longrightarrow> \<not> is_space (hd xs) \<and> \<not> is_space (last xs)"
    using assms by simp
  ultimately show ?thesis
    by (simp add: clean_html_def strip_tags_plain squeeze_newlines_plain strip_fixed)
qed

lemma generate_word_loop_mono:
  "set doc \<subseteq> set (fst (generate_word_loop n i ms (doc, c)))"
proof (induction ms arbitrary: i doc c)
  case Nil
  show ?case by simp
next
  case (Cons e ms)
  show ?case
  proof (cases "m_full_text e")
    case None
    then show ?thesis using Cons.IH[of doc "Suc i" c] by simp
  next
    case (Some p)
    obtain r ft where "p = (r, ft)" by (cases p)
    then show ?thesis using Some Cons.IH[of "doc @ word_entry n i e ft" "Suc i" "c + 1"] by auto
  qed
qed

lemma generate_word_loop_has:
  "k < length ms \<Longrightarrow> m_full_text (ms ! k) = Some (r, ft) \<Longrightarrow>
   Paragraph (word_text ft) \<in> set (fst (generate_word_loop n i ms (doc, c)))"
proof (induction ms arbitrary: k i doc c)
  case Nil
  then show ?case by simp
next
  case (Cons e ms)
  show ?case
  proof (cases k)
    case 0
    then have e: "m_full_text e = Some (r, ft)" using Cons.prems(2) by simp
    have "Paragraph (word_text ft) \<in> set (doc @ word_entry n i e ft)"
      by (simp add: word_entry_def Let_def)
    then show ?thesis
      using e generate_word_loop_mono[of "doc @ word_entry n i e ft" n "Suc i" ms "c + 1"] by auto
  next
    case (Suc k')
    then have k': "k' < length ms" "m_full_text (ms ! k') = Some (r, ft)"
      using Cons.prems by simp_all
    show ?thesis
    proof (cases "m_full_text e")
      case None
      then show ?thesis using Cons.IH[OF k'] by simp
    next
      case (Some p)
      obtain r' ft' where "p = (r', ft')" by (cases p)
      then show ?thesis
        using Some Cons.IH[OF k'] by simp
    qed
  qed
qed

lemma quote_entry_html_has: "\<exists>a b. quote_entry_html e = a @ quote_text e @ b"
  unfolding quote_entry_html_def Let_def unlines_def
  by (simp del: append_assoc add: append_assoc[symmetric]) (metis append.assoc)

lemma generate_html_has_text:
  assumes "k < length matched"
  shows "\<exists>pre post. generate_html matched = pre @ quote_text (matched ! k) @ post"
proof -
  from generate_html_infix[OF assms] obtain pre post where
    g: "generate_html matched = pre @ quote_entry_html (matched ! k) @ post" by blast
  from quote_entry_html_has[of "matched ! k"] obtain a b where
    "quote_entry_html (matched ! k) = a @ quote_text (matched ! k) @ b" by blast
  then have "generate_html matched = (pre @ a) @ quote_text (matched ! k) @ (b @ post)"
    using g by simp
  then show ?thesis by blast
qed

text \<open>
  C7. For an entry with a passage, the text that \<open>generate_html\<close> renders is the cleaned
  body cut to 3000 characters and followed by two newlines and the marker \<open>[...]\<close> when
  the cleaned body is longer than 3000 characters, and the cleaned body itself
  otherwise; the text that \<open>generate_word\<close> renders is the same with 2500 characters and
  a space before the marker. Both texts are in the output.
\<close>

theorem output_truncation:
  assumes "k < length matched" and "m_full_text (matched ! k) = Some (i, ft)"
  shows "(3000 < length (clean_html (ft_text ft)) \<longrightarrow>
            quote_text (matched ! k) = take 3000 (clean_html (ft_text ft)) @ [10, 10] @ asc ''[...]'') \<and>
         (length (clean_html (ft_text ft)) \<le> 3000 \<longrightarrow>
            quote_text (matched ! k) = clean_html (ft_text ft)) \<and>
         (2500 < length (clean_html (ft_text ft)) \<longrightarrow>
            word_text ft = take 2500 (clean_html (ft_text ft)) @ asc '' [...]'') \<and>
         (length (clean_html (ft_text ft)) \<le> 2500 \<longrightarrow> word_text ft = clean_html (ft_text ft)) \<and>
         (\<exists>pre post. generate_html matched = pre @ quote_text (matched ! k) @ post) \<and>
         Paragraph (word_text ft) \<in> set (fst (generate_word matched))"
proof -
  have "Paragraph (word_text ft) \<in> set (fst (generate_word matched))"
    unfolding generate_word_def using assms by (rule generate_word_loop_has)
  moreover have "\<exists>pre post. generate_html matched = pre @ quote_text (matched ! k) @ post"
    using assms(1) by (rule generate_html_has_text)
  ultimately show ?thesis
    using assms(2) by (simp add: quote_text_def word_text_def Let_def)
qed

theorem output_truncation_witness:
  "quote_text (ex_entry 2997) = ex_verse @ replicate 2996 1488 @ [10, 10] @ asc ''[...]'' \<and>
   word_text (ex_long_passage 2997) = ex_verse @ replicate 2496 1488 @ asc '' [...]'' \<and>
   quote_text (ex_entry 2996) = ex_verse @ replicate 2996 1488 \<and>
   word_text (ex_long_passage 2496) = ex_verse @ replicate 2496 1488 \<and>
   length (clean_html (ft_text (ex_long_passage 2997))) = 3001 \<and>
   length (clean_html (ft_text (ex_long_passage 2996))) = 3000 \<and>
   length (clean_html (ft_text (ex_long_passage 2496))) = 2500 \<and>
   (\<exists>pre post. generate_html [ex_entry 2997] = pre @ quote_text (ex_entry 2997) @ post) \<and>
   Paragraph (word_text (ex_long_passage 2997)) \<in> set (fst (generate_word [ex_entry 2997]))"
proof -
  have p: "clean_html (ex_verse @ replicate n 1488) = ex_verse @ replicate n 1488" for n
    by (rule clean_html_plain) (auto simp: ex_verse_def is_space_def)
  have t: "strip_tags (ft_text (ex_long_passage n)) = strip_tags (ex_verse @ replicate n 1488)" for n
    by (simp add: ex_long_passage_def ex_verse_def asc_def)
  have c: "clean_html (ft_text (ex_long_passage n)) = ex_verse @ replicate n 1488" for n
    using p[of n] t[of n] by (simp add: clean_html_def)
  have l: "length ex_verse = 4" by (simp add: ex_verse_def)
  have e: "m_full_text ([ex_entry n] ! 0) = Some (0, ex_long_passage n)" for n
    by (simp add: ex_entry_def)
  have k: "0 < length [ex_entry n]" for n by simp
  note long = output_truncation[OF k e, of 2997]
  note edge = output_truncation[OF k e, of 2996]
  note short = output_truncation[OF k e, of 2496]
  have "quote_text (ex_entry 2997) = ex_verse @ replicate 2996 1488 @ [10, 10] @ asc ''[...]''"
    using long[THEN conjunct1] by (simp add: c l)
  moreover have "word_text (ex_long_passage 2997) = ex_verse @ replicate 2496 1488 @ asc '' [...]''"
    using long[THEN conjunct2, THEN conjunct2, THEN conjunct1] by (simp add: c l)
  moreover have "quote_text (ex_entry 2996) = ex_verse @ replicate 2996 1488"
    using edge[THEN conjunct2, THEN conjunct1] by (simp add: c l)
  moreover have "word_text (ex_long_passage 2496) = ex_verse @ replicate 2496 1488"
    using short[THEN conjunct2, THEN conjunct2, THEN conjunct2, THEN conjunct1] by (simp add: c l)
  moreover have "\<exists>pre post. generate_html [ex_entry 2997] = pre @ quote_text (ex_entry 2997) @ post"
    using long[THEN conjunct2, THEN conjunct2, THEN conjunct2, THEN conjunct2, THEN conjunct1]
    by simp
  moreover have "Paragraph (word_text (ex_long_passage 2997)) \<in> set (fst (generate_word [ex_entry 2997]))"
    using long[THEN conjunct2, THEN conjunct2, THEN conjunct2, THEN conjunct2, THEN conjunct2]
    by simp
  ultimately show ?thesis by (simp add: c l)
qed

subsection \<open>C8: determinism\<close>








subsection \<open>C9: the shape of the result of match\_all\<close>

text \<open>
  C9. For every list of summaries, \<open>match_all\<close> returns (it does not raise) a list of the
  same length and order: the i-th result holds the i-th summary, paired either with a
  passage that is marked used in \<open>full_texts\<close> and a positive score, or with no passage
  and the score 0.
\<close>

theorem match_all_shape:
  "\<exists>matched fts'. match_all summaries full_texts = Inr (matched, fts') \<and>
      length matched = length summaries \<and>
      (\<forall>k<length summaries.
         m_summary (matched ! k) = summaries ! k \<and>
         (case m_full_text (matched ! k) of
            None \<Rightarrow> m_score (matched ! k) = 0
          | Some (i, ft) \<Rightarrow>
              i < length fts' \<and> fts' ! i = ft \<and> ft_used ft \<and> 0 < m_score (matched ! k)))"
proof -
  from match_all_total[of summaries full_texts] obtain m f where
    r: "match_all summaries full_texts = Inr (m, f)" and ok: "\<forall>e\<in>set m. entry_ok f e"
    and ms: "map m_summary m = summaries"
    by blast
  have len: "length m = length summaries" using ms by (metis length_map)
  have "\<forall>k<length summaries.
         m_summary (m ! k) = summaries ! k \<and>
         (case m_full_text (m ! k) of
            None \<Rightarrow> m_score (m ! k) = 0
          | Some (i, ft) \<Rightarrow> i < length f \<and> f ! i = ft \<and> ft_used ft \<and> 0 < m_score (m ! k))"
  proof (intro allI impI conjI)
    fix k assume k: "k < length summaries"
    then show "m_summary (m ! k) = summaries ! k" using ms len by (metis nth_map)
    have "entry_ok f (m ! k)" using ok k len by simp
    then show "case m_full_text (m ! k) of
            None \<Rightarrow> m_score (m ! k) = 0
          | Some (i, ft) \<Rightarrow> i < length f \<and> f ! i = ft \<and> ft_used ft \<and> 0 < m_score (m ! k)"
      by (auto simp: entry_ok_def split: option.splits)
  qed
  then show ?thesis using r len by blast
qed

theorem match_all_shape_witness:
  "match_all [ex_summary 1, ex_summary 2, ex_summary 3]
       [ex_passage ex_body False, ex_passage ex_body False, ex_other_passage] =
     Inr ([\<lparr>m_summary = ex_summary 1, m_full_text = Some (0, ex_passage ex_body True), m_score = 100\<rparr>,
           \<lparr>m_summary = ex_summary 2, m_full_text = Some (1, ex_passage ex_body True), m_score = 100\<rparr>,
           \<lparr>m_summary = ex_summary 3, m_full_text = None, m_score = 0\<rparr>],
          [ex_passage ex_body True, ex_passage ex_body True, ex_other_passage])"
  using match_all_shape[of "[ex_summary 1, ex_summary 2, ex_summary 3]"
      "[ex_passage ex_body False, ex_passage ex_body False, ex_other_passage]"]
  by (simp add: ex_match_all ex_flags)

subsection \<open>C10: normalisation\<close>

text \<open>
  C10. \<open>normalize_text\<close> is idempotent, and its result has no nikud (U+0591 to U+05C7),
  none of the punctuation characters that it replaces, and no two whitespace characters
  in a row.
\<close>

theorem normalize_text_idempotent:
  "normalize_text (normalize_text s) = normalize_text s \<and>
   (\<forall>c\<in>set (normalize_text s). \<not> is_nikud c \<and> \<not> is_punct c) \<and>
   (\<forall>i. Suc i < length (normalize_text s) \<longrightarrow>
      \<not> (is_space (normalize_text s ! i) \<and> is_space (normalize_text s ! Suc i)))"
proof -
  let ?t = "normalize_text s"
  have ends: "?t \<noteq> [] \<longrightarrow> \<not> is_space (hd ?t) \<and> \<not> is_space (last ?t)"
    unfolding normalize_text_def Let_def using strip_hd strip_last by blast
  have "normalize_text ?t = ?t"
    using normalize_text_fixed[OF normalize_text_single_spaced _ ends] normalize_text_chars
    by blast
  then show ?thesis
    using normalize_text_chars single_spaced_nth[OF normalize_text_single_spaced] by blast
qed

theorem normalize_text_idempotent_witness:
  "normalize_text [32, 1513, 1473, 46, 9, 32, 1500, 8211, 10] = [1513, 32, 1500] \<and>
   normalize_text (normalize_text [32, 1513, 1473, 46, 9, 32, 1500, 8211, 10]) = [1513, 32, 1500] \<and>
   1513 \<in> set (normalize_text [32, 1513, 1473, 46, 9, 32, 1500, 8211, 10]) \<and>
   \<not> is_nikud 1513 \<and> \<not> is_punct 1513 \<and>
   Suc 0 < length (normalize_text [32, 1513, 1473, 46, 9, 32, 1500, 8211, 10]) \<and>
   \<not> (is_space (normalize_text [32, 1513, 1473, 46, 9, 32, 1500, 8211, 10] ! 0) \<and>
      is_space (normalize_text [32, 1513, 1473, 46, 9, 32, 1500, 8211, 10] ! Suc 0))"
proof -
  have v: "normalize_text [32, 1513, 1473, 46, 9, 32, 1500, 8211, 10] = [1513, 32, 1500]"
    by (simp add: normalize_text_def strip_def is_nikud_def is_punct_def is_space_def)
  show ?thesis
    using normalize_text_idempotent[of "[32, 1513, 1473, 46, 9, 32, 1500, 8211, 10]"]
    unfolding v by (simp add: is_nikud_def is_punct_def is_space_def)
qed

end
